theory Spec2Isabelle
  imports Complex_Main "HOL-Library.Word"
begin

section \<open>PDF compressor: data model (src/lib/tools/pdf-compressor.ts)\<close>

text \<open>
  JavaScript numbers that carry an encoding quality or a byte budget are modelled as
  exact rationals (\<open>rat\<close>); byte counts and counters are natural numbers. The two
  libraries the engine drives (pdf.js for rasterising, jsPDF with the canvas JPEG encoder
  for assembling) are not part of the repository: the rasteriser's result (\<open>pages\<close>,
  \<open>originalSize\<close>) is an input of the model, and the assembler is an oracle
  \<open>jsPDF\<close> that may keep state of its own and may fail. Wall-clock time
  (\<open>duration\<close>) and the scheduling yields (\<open>setTimeout(resolve, 0)\<close>) are left out.
\<close>

type_synonym Blob = "8 word list"

definition blob_size :: "Blob \<Rightarrow> nat" where
  "blob_size b = length b"

record CompressionSettings =
  quality :: rat
  dpi :: rat
  targetSizeMB :: "rat option"

datatype stage = Loading | Rendering | Compressing | Generating | Optimizing | Complete

record CompressionProgress =
  stage :: stage
  currentPage :: nat
  totalPages :: nat
  message :: string
  attempt :: "nat option"

record CompressionResult =
  blob :: Blob
  originalSize :: nat
  compressedSize :: nat
  pageCount :: nat
  finalQuality :: "rat option"

record RenderedPage =
  canvas :: "8 word list"
  width :: rat
  height :: rat

datatype error = TypeError | AssemblyError string

text \<open>
  What an observer of one run sees, in the order it happens: a call of the progress
  callback (when the caller supplied one), or a call of \<open>generatePDFFromCanvases\<close> with the
  quality asked for and what came back.
\<close>

datatype event = Progress CompressionProgress | Assemble rat "error + Blob"

record 'o world =
  events :: "event list"
  libState :: 'o

datatype ('a, 'o) outcome = Threw error "'o world" | Ok 'a "'o world"

type_synonym 'o assembler = "RenderedPage list \<Rightarrow> rat \<Rightarrow> 'o \<Rightarrow> (error + Blob) \<times> 'o"

definition init_world :: "'o \<Rightarrow> 'o world" where
  "init_world o0 = \<lparr>events = [], libState = o0\<rparr>"

definition onProgress :: "CompressionProgress \<Rightarrow> 'o world \<Rightarrow> 'o world" where
  "onProgress p w = w\<lparr>events := events w @ [Progress p]\<rparr>"

text \<open>
  \<open>generatePDFFromCanvases\<close> reads \<open>pages[0].width\<close> before anything else, which is a
  TypeError on an empty page list; everything after that is the library's work.
\<close>

definition generatePDFFromCanvases ::
  "'o assembler \<Rightarrow> RenderedPage list \<Rightarrow> rat \<Rightarrow> 'o world \<Rightarrow> (Blob, 'o) outcome" where
  "generatePDFFromCanvases jsPDF pages q w =
     (case pages of
        [] \<Rightarrow> Threw TypeError (w\<lparr>events := events w @ [Assemble q (Inl TypeError)]\<rparr>)
      | firstPage # _ \<Rightarrow>
          (case jsPDF pages q (libState w) of
             (Inl e, o') \<Rightarrow> Threw e \<lparr>events = events w @ [Assemble q (Inl e)], libState = o'\<rparr>
           | (Inr b, o') \<Rightarrow> Ok b \<lparr>events = events w @ [Assemble q (Inr b)], libState = o'\<rparr>))"

subsection \<open>Text of the progress messages\<close>

definition maxAttempts :: nat where
  "maxAttempts = 6"

definition digit_char :: "nat \<Rightarrow> char" where
  "digit_char d = char_of (48 + d)"

fun show_nat :: "nat \<Rightarrow> string" where
  "show_nat n = (if n < 10 then [digit_char n] else show_nat (n div 10) @ [digit_char (n mod 10)])"

declare show_nat.simps [simp del]

text \<open>\<open>Math.round\<close> rounds to the nearest integer, halves upwards.\<close>

definition Math_round :: "rat \<Rightarrow> int" where
  "Math_round x = \<lfloor>x + 1 / 2\<rfloor>"

definition percent :: "rat \<Rightarrow> string" where
  "percent q = show_nat (nat (Math_round (q * 100)))"

subsection \<open>The progress reports\<close>

text \<open>
  The object literals handed to \<open>onProgress\<close> in \<open>compressPDF\<close>, one definition for each
  call site, in source order (lines 203, 215, 237, 270, 295, 308 and 320). The
  refinement, fallback, direct-mode and completion reports have no \<open>attempt\<close> field.
  \<open>numToString\<close> is the host's conversion of a number to text, used for the megabyte
  figure of the first message.
\<close>

definition progress_finding :: "(rat \<Rightarrow> string) \<Rightarrow> nat \<Rightarrow> rat \<Rightarrow> CompressionProgress" where
  "progress_finding numToString n mb =
     \<lparr>stage = Optimizing, currentPage = n, totalPages = n,
      message = ''Finding optimal quality for '' @ numToString mb @ '' MB target...'',
      attempt = Some 0\<rparr>"

definition progress_probe :: "nat \<Rightarrow> CompressionProgress" where
  "progress_probe n =
     \<lparr>stage = Optimizing, currentPage = n, totalPages = n,
      message = ''Testing maximum quality...'', attempt = Some 1\<rparr>"

definition progress_attempt :: "nat \<Rightarrow> nat \<Rightarrow> rat \<Rightarrow> CompressionProgress" where
  "progress_attempt n att testQuality =
     \<lparr>stage = Optimizing, currentPage = n, totalPages = n,
      message = ''Attempt '' @ show_nat att @ ''/'' @ show_nat maxAttempts
        @ '': Testing '' @ percent testQuality @ ''% quality...'',
      attempt = Some att\<rparr>"

definition progress_refine :: "nat \<Rightarrow> rat \<Rightarrow> CompressionProgress" where
  "progress_refine n refinedQuality =
     \<lparr>stage = Optimizing, currentPage = n, totalPages = n,
      message = ''Refining: Testing '' @ percent refinedQuality @ ''% quality...'',
      attempt = None\<rparr>"

definition progress_fallback :: "nat \<Rightarrow> CompressionProgress" where
  "progress_fallback n =
     \<lparr>stage = Optimizing, currentPage = n, totalPages = n,
      message = ''Target too small - using minimum quality...'', attempt = None\<rparr>"

definition progress_generating :: "nat \<Rightarrow> CompressionProgress" where
  "progress_generating n =
     \<lparr>stage = Generating, currentPage = n, totalPages = n,
      message = ''Generating compressed PDF...'', attempt = None\<rparr>"

definition progress_complete :: "nat \<Rightarrow> CompressionProgress" where
  "progress_complete n =
     \<lparr>stage = Complete, currentPage = n, totalPages = n,
      message = ''Compression complete!'', attempt = None\<rparr>"

subsection \<open>The target-size search\<close>

text \<open>The local variables of the target-size branch of \<open>compressPDF\<close>.\<close>

record SearchState =
  minQuality :: rat
  maxQuality :: rat
  bestBlob :: "Blob option"
  bestQuality :: rat
  chosenQuality :: rat

definition maxRefinementPasses :: nat where
  "maxRefinementPasses = 4"

definition fits :: "Blob \<Rightarrow> rat \<Rightarrow> bool" where
  "fits b targetBytes \<longleftrightarrow> of_nat (blob_size b) \<le> targetBytes"

text \<open>One pass of the \<open>for\<close> loop of the binary search (lines 234-259).\<close>

definition bisect_body ::
  "'o assembler \<Rightarrow> RenderedPage list \<Rightarrow> rat \<Rightarrow> nat \<Rightarrow> SearchState \<Rightarrow> 'o world
     \<Rightarrow> (SearchState, 'o) outcome" where
  "bisect_body jsPDF pages targetBytes att s w =
     (let testQuality = (minQuality s + maxQuality s) / 2;
          w1 = onProgress (progress_attempt (length pages) att testQuality) w
      in case generatePDFFromCanvases jsPDF pages testQuality w1 of
           Threw e w2 \<Rightarrow> Threw e w2
         | Ok testBlob w2 \<Rightarrow>
             if fits testBlob targetBytes
             then Ok (s\<lparr>bestBlob := Some testBlob, bestQuality := testQuality,
                        minQuality := testQuality\<rparr>) w2
             else Ok (s\<lparr>maxQuality := testQuality\<rparr>) w2)"

function bisect_loop ::
  "'o assembler \<Rightarrow> RenderedPage list \<Rightarrow> rat \<Rightarrow> nat \<Rightarrow> SearchState \<Rightarrow> 'o world
     \<Rightarrow> (SearchState, 'o) outcome" where
  "bisect_loop jsPDF pages targetBytes att s w =
     (if att \<le> maxAttempts
      then (case bisect_body jsPDF pages targetBytes att s w of
              Threw e w' \<Rightarrow> Threw e w'
            | Ok s' w' \<Rightarrow> bisect_loop jsPDF pages targetBytes (att + 1) s' w')
      else Ok s w)"
  by pat_completeness auto
termination
  by (relation "measure (\<lambda>(jsPDF, pages, targetBytes, att, s, w). maxAttempts + 1 - att)") auto

declare bisect_loop.simps [simp del]

text \<open>One pass of the \<open>while\<close> loop of the refinement (lines 266-288).\<close>

definition refine_body ::
  "'o assembler \<Rightarrow> RenderedPage list \<Rightarrow> rat \<Rightarrow> SearchState \<Rightarrow> 'o world
     \<Rightarrow> (SearchState, 'o) outcome" where
  "refine_body jsPDF pages targetBytes s w =
     (let refinedQuality = (bestQuality s + maxQuality s) / 2;
          w1 = onProgress (progress_refine (length pages) refinedQuality) w
      in case generatePDFFromCanvases jsPDF pages refinedQuality w1 of
           Threw e w2 \<Rightarrow> Threw e w2
         | Ok refinedBlob w2 \<Rightarrow>
             if fits refinedBlob targetBytes
             then Ok (s\<lparr>bestBlob := Some refinedBlob, bestQuality := refinedQuality\<rparr>) w2
             else Ok (s\<lparr>maxQuality := refinedQuality\<rparr>) w2)"

definition refine_cond :: "SearchState \<Rightarrow> nat \<Rightarrow> bool" where
  "refine_cond s refinementPasses \<longleftrightarrow>
     bestBlob s \<noteq> None \<and> bestQuality s < maxQuality s - 5 / 1000
       \<and> refinementPasses < maxRefinementPasses"

function refine_loop ::
  "'o assembler \<Rightarrow> RenderedPage list \<Rightarrow> rat \<Rightarrow> nat \<Rightarrow> SearchState \<Rightarrow> 'o world
     \<Rightarrow> (SearchState, 'o) outcome" where
  "refine_loop jsPDF pages targetBytes refinementPasses s w =
     (if refine_cond s refinementPasses
      then (case refine_body jsPDF pages targetBytes s w of
              Threw e w' \<Rightarrow> Threw e w'
            | Ok s' w' \<Rightarrow> refine_loop jsPDF pages targetBytes (refinementPasses + 1) s' w')
      else Ok s w)"
  by pat_completeness auto
termination
  by (relation "measure (\<lambda>(jsPDF, pages, targetBytes, refinementPasses, s, w).
        maxRefinementPasses - refinementPasses)") (auto simp: refine_cond_def)

declare refine_loop.simps [simp del]

text \<open>The \<open>else\<close> branch of the ceiling test (lines 230-291): both loops, then
  \<open>finalQuality = bestQuality\<close>.\<close>

definition search_below_ceiling ::
  "'o assembler \<Rightarrow> RenderedPage list \<Rightarrow> rat \<Rightarrow> SearchState \<Rightarrow> 'o world
     \<Rightarrow> (SearchState, 'o) outcome" where
  "search_below_ceiling jsPDF pages targetBytes s w =
     (case bisect_loop jsPDF pages targetBytes 1 s w of
        Threw e w1 \<Rightarrow> Threw e w1
      | Ok s1 w1 \<Rightarrow>
          (case refine_loop jsPDF pages targetBytes 0 s1 w1 of
             Threw e w2 \<Rightarrow> Threw e w2
           | Ok s2 w2 \<Rightarrow> Ok (s2\<lparr>chosenQuality := bestQuality s2\<rparr>) w2))"

text \<open>Lines 214-229: the probe at quality 1.0 and the test that decides whether to search.\<close>

definition ceiling_probe ::
  "'o assembler \<Rightarrow> RenderedPage list \<Rightarrow> rat \<Rightarrow> SearchState \<Rightarrow> 'o world
     \<Rightarrow> (SearchState, 'o) outcome" where
  "ceiling_probe jsPDF pages targetBytes s w =
     (let w1 = onProgress (progress_probe (length pages)) w
      in case generatePDFFromCanvases jsPDF pages 1 w1 of
           Threw e w2 \<Rightarrow> Threw e w2
         | Ok maxQualityBlob w2 \<Rightarrow>
             if fits maxQualityBlob targetBytes
             then Ok (s\<lparr>bestBlob := Some maxQualityBlob, bestQuality := 1,
                        chosenQuality := 1\<rparr>) w2
             else search_below_ceiling jsPDF pages targetBytes s w2)"

text \<open>Lines 293-305: the result of the search, with the minimum-quality fallback.\<close>

definition fallback ::
  "'o assembler \<Rightarrow> RenderedPage list \<Rightarrow> SearchState \<Rightarrow> 'o world \<Rightarrow> (Blob \<times> rat, 'o) outcome" where
  "fallback jsPDF pages s w =
     (case bestBlob s of
        None \<Rightarrow>
          (let w1 = onProgress (progress_fallback (length pages)) w
           in case generatePDFFromCanvases jsPDF pages (1 / 10) w1 of
                Threw e w2 \<Rightarrow> Threw e w2
              | Ok b w2 \<Rightarrow> Ok (b, 1 / 10) w2)
      | Some b \<Rightarrow> Ok (b, chosenQuality s) w)"

text \<open>Line 197: \<open>targetBytes = settings.targetSizeMB * 1024 * 1024\<close>.\<close>

definition targetBytes_of :: "rat \<Rightarrow> rat" where
  "targetBytes_of mb = mb * 1024 * 1024"

text \<open>Lines 193 and 198-201: the variables as they are initialised.\<close>

definition initial_state :: "CompressionSettings \<Rightarrow> SearchState" where
  "initial_state settings =
     \<lparr>minQuality = 1 / 10, maxQuality = 1, bestBlob = None, bestQuality = 1 / 10,
      chosenQuality = quality settings\<rparr>"

text \<open>The whole target-size branch (lines 196-305).\<close>

definition target_mode ::
  "(rat \<Rightarrow> string) \<Rightarrow> 'o assembler \<Rightarrow> RenderedPage list \<Rightarrow> CompressionSettings \<Rightarrow> rat
     \<Rightarrow> 'o world \<Rightarrow> (Blob \<times> rat, 'o) outcome" where
  "target_mode numToString jsPDF pages settings mb w =
     (let w1 = onProgress (progress_finding numToString (length pages) mb) w
      in case ceiling_probe jsPDF pages (targetBytes_of mb) (initial_state settings) w1 of
           Threw e w2 \<Rightarrow> Threw e w2
         | Ok s w2 \<Rightarrow> fallback jsPDF pages s w2)"

text \<open>Lines 307-315: the direct mode, one assembly at the quality the caller chose.\<close>

definition standard_mode ::
  "'o assembler \<Rightarrow> RenderedPage list \<Rightarrow> CompressionSettings \<Rightarrow> 'o world
     \<Rightarrow> (Blob \<times> rat, 'o) outcome" where
  "standard_mode jsPDF pages settings w =
     (let w1 = onProgress (progress_generating (length pages)) w
      in case generatePDFFromCanvases jsPDF pages (quality settings) w1 of
           Threw e w2 \<Rightarrow> Threw e w2
         | Ok b w2 \<Rightarrow> Ok (b, quality settings) w2)"

text \<open>\<open>if (settings.targetSizeMB)\<close>: the field is there and is not zero.\<close>

definition target_of :: "CompressionSettings \<Rightarrow> rat option" where
  "target_of settings =
     (case targetSizeMB settings of
        None \<Rightarrow> None
      | Some mb \<Rightarrow> if mb = 0 then None else Some mb)"

definition compressPDF ::
  "(rat \<Rightarrow> string) \<Rightarrow> 'o assembler \<Rightarrow> RenderedPage list \<Rightarrow> nat \<Rightarrow> CompressionSettings
     \<Rightarrow> 'o world \<Rightarrow> (CompressionResult, 'o) outcome" where
  "compressPDF numToString jsPDF pages origSize settings w =
     (case (case target_of settings of
              Some mb \<Rightarrow> target_mode numToString jsPDF pages settings mb w
            | None \<Rightarrow> standard_mode jsPDF pages settings w) of
        Threw e w1 \<Rightarrow> Threw e w1
      | Ok (finalBlob, fq) w1 \<Rightarrow>
          Ok \<lparr>blob = finalBlob, originalSize = origSize,
               compressedSize = blob_size finalBlob, pageCount = length pages,
               finalQuality = (case target_of settings of Some mb \<Rightarrow> Some fq | None \<Rightarrow> None)\<rparr>
             (onProgress (progress_complete (length pages)) w1))"

subsection \<open>Reading a run\<close>

fun out_world :: "('a, 'o) outcome \<Rightarrow> 'o world" where
  "out_world (Threw e w) = w"
| "out_world (Ok a w) = w"

fun is_call :: "event \<Rightarrow> bool" where
  "is_call (Assemble q r) = True"
| "is_call (Progress p) = False"

definition assembler_calls :: "event list \<Rightarrow> nat" where
  "assembler_calls evs = length (filter is_call evs)"

subsection \<open>The points a search passes through\<close>

text \<open>
  To speak about the variables during a search, the loops are run once more, collecting
  the loop counter, the variables and the world at every loop head: \<open>bisect_states\<close>
  lists what the \<open>for\<close> loop sees each time it tests \<open>attempt <= maxAttempts\<close>,
  \<open>refine_states\<close> what the \<open>while\<close> loop sees each time it tests its condition. A pass
  that throws ends the list.
\<close>

function bisect_states ::
  "'o assembler \<Rightarrow> RenderedPage list \<Rightarrow> rat \<Rightarrow> nat \<Rightarrow> SearchState \<Rightarrow> 'o world
     \<Rightarrow> (nat \<times> SearchState \<times> 'o world) list" where
  "bisect_states jsPDF pages targetBytes att s w =
     (att, s, w) #
     (if att \<le> maxAttempts
      then (case bisect_body jsPDF pages targetBytes att s w of
              Threw e w' \<Rightarrow> []
            | Ok s' w' \<Rightarrow> bisect_states jsPDF pages targetBytes (att + 1) s' w')
      else [])"
  by pat_completeness auto
termination
  by (relation "measure (\<lambda>(jsPDF, pages, targetBytes, att, s, w). maxAttempts + 1 - att)") auto

declare bisect_states.simps [simp del]

function refine_states ::
  "'o assembler \<Rightarrow> RenderedPage list \<Rightarrow> rat \<Rightarrow> nat \<Rightarrow> SearchState \<Rightarrow> 'o world
     \<Rightarrow> (nat \<times> SearchState \<times> 'o world) list" where
  "refine_states jsPDF pages targetBytes refinementPasses s w =
     (refinementPasses, s, w) #
     (if refine_cond s refinementPasses
      then (case refine_body jsPDF pages targetBytes s w of
              Threw e w' \<Rightarrow> []
            | Ok s' w' \<Rightarrow> refine_states jsPDF pages targetBytes (refinementPasses + 1) s' w')
      else [])"
  by pat_completeness auto
termination
  by (relation "measure (\<lambda>(jsPDF, pages, targetBytes, refinementPasses, s, w).
        maxRefinementPasses - refinementPasses)") (auto simp: refine_cond_def)

declare refine_states.simps [simp del]

text \<open>
  The same for a whole target-size search, following \<open>target_mode\<close> and
  \<open>ceiling_probe\<close>: the point at which the quality-1.0 probe is made, then the loop
  heads of the bisection (\<open>bisect_phase\<close>) and of the refinement (\<open>refine_phase\<close>) when
  the probe did not fit, and the point after the search (\<open>after_search\<close>: the variables
  that decide about the fallback).
\<close>

definition probe_world :: "(rat \<Rightarrow> string) \<Rightarrow> RenderedPage list \<Rightarrow> rat \<Rightarrow> 'o world \<Rightarrow> 'o world" where
  "probe_world numToString pages mb w =
     onProgress (progress_probe (length pages))
       (onProgress (progress_finding numToString (length pages) mb) w)"

definition bisect_phase ::
  "(rat \<Rightarrow> string) \<Rightarrow> 'o assembler \<Rightarrow> RenderedPage list \<Rightarrow> CompressionSettings \<Rightarrow> rat
     \<Rightarrow> 'o world \<Rightarrow> (nat \<times> SearchState \<times> 'o world) list" where
  "bisect_phase numToString jsPDF pages settings mb w =
     (case generatePDFFromCanvases jsPDF pages 1 (probe_world numToString pages mb w) of
        Threw e w2 \<Rightarrow> []
      | Ok maxQualityBlob w2 \<Rightarrow>
          if fits maxQualityBlob (targetBytes_of mb) then []
          else bisect_states jsPDF pages (targetBytes_of mb) 1 (initial_state settings) w2)"

definition refine_phase ::
  "(rat \<Rightarrow> string) \<Rightarrow> 'o assembler \<Rightarrow> RenderedPage list \<Rightarrow> CompressionSettings \<Rightarrow> rat
     \<Rightarrow> 'o world \<Rightarrow> (nat \<times> SearchState \<times> 'o world) list" where
  "refine_phase numToString jsPDF pages settings mb w =
     (case generatePDFFromCanvases jsPDF pages 1 (probe_world numToString pages mb w) of
        Threw e w2 \<Rightarrow> []
      | Ok maxQualityBlob w2 \<Rightarrow>
          if fits maxQualityBlob (targetBytes_of mb) then []
          else (case bisect_loop jsPDF pages (targetBytes_of mb) 1 (initial_state settings) w2 of
                  Threw e w3 \<Rightarrow> []
                | Ok s1 w3 \<Rightarrow> refine_states jsPDF pages (targetBytes_of mb) 0 s1 w3))"

definition after_search ::
  "(rat \<Rightarrow> string) \<Rightarrow> 'o assembler \<Rightarrow> RenderedPage list \<Rightarrow> CompressionSettings \<Rightarrow> rat
     \<Rightarrow> 'o world \<Rightarrow> (SearchState \<times> 'o world) list" where
  "after_search numToString jsPDF pages settings mb w =
     (case ceiling_probe jsPDF pages (targetBytes_of mb) (initial_state settings)
             (onProgress (progress_finding numToString (length pages) mb) w) of
        Threw e w2 \<Rightarrow> []
      | Ok s w2 \<Rightarrow> [(s, w2)])"

definition search_points ::
  "(rat \<Rightarrow> string) \<Rightarrow> 'o assembler \<Rightarrow> RenderedPage list \<Rightarrow> CompressionSettings \<Rightarrow> rat
     \<Rightarrow> 'o world \<Rightarrow> (SearchState \<times> 'o world) list" where
  "search_points numToString jsPDF pages settings mb w =
     (initial_state settings, probe_world numToString pages mb w)
       # map snd (bisect_phase numToString jsPDF pages settings mb w)
       @ map snd (refine_phase numToString jsPDF pages settings mb w)
       @ after_search numToString jsPDF pages settings mb w"



definition vars :: "nat \<times> SearchState \<times> 'o world \<Rightarrow> SearchState" where
  "vars x = fst (snd x)"

text \<open>
  \<open>known_too_big T evs q\<close>: the trace holds a call at quality \<open>q\<close> whose blob exceeds the
  target. \<open>best_known evs s\<close>: the best blob, when there is one, was assembled at
  \<open>bestQuality\<close>.
\<close>

definition known_too_big :: "rat \<Rightarrow> event list \<Rightarrow> rat \<Rightarrow> bool" where
  "known_too_big T evs q \<longleftrightarrow>
     list_ex (\<lambda>ev. case ev of
                     Assemble q' r \<Rightarrow> (case r of Inr b \<Rightarrow> q' = q \<and> \<not> fits b T | Inl e \<Rightarrow> False)
                   | Progress p \<Rightarrow> False) evs"

definition best_known :: "event list \<Rightarrow> SearchState \<Rightarrow> bool" where
  "best_known evs s \<longleftrightarrow>
     (case bestBlob s of None \<Rightarrow> True | Some b \<Rightarrow> Assemble (bestQuality s) (Inr b) \<in> set evs)"

subsection \<open>Predicates used in the statements\<close>

fun result_of :: "('a, 'o) outcome \<Rightarrow> 'a option" where
  "result_of (Threw e w) = None"
| "result_of (Ok a w) = Some a"

definition best_fits :: "rat \<Rightarrow> SearchState \<Rightarrow> bool" where
  "best_fits T s \<longleftrightarrow> (case bestBlob s of None \<Rightarrow> True | Some b \<Rightarrow> fits b T)"

text \<open>
  The invariant of the search state as the specification words it (section 3,
  \<open>SearchState\<close>): the bracket is ordered, the best candidate fits, \<open>minQuality\<close> is the
  quality of the best candidate (the floor 0.1 when there is none), \<open>maxQuality\<close> is the
  ceiling 1.0 or a quality seen to exceed the target.
\<close>

definition spec_invariant :: "rat \<Rightarrow> SearchState \<times> 'o world \<Rightarrow> bool" where
  "spec_invariant T x \<longleftrightarrow>
     (case x of (s, w) \<Rightarrow>
        minQuality s \<le> maxQuality s
        \<and> best_fits T s
        \<and> minQuality s = (case bestBlob s of None \<Rightarrow> 1 / 10 | Some b \<Rightarrow> bestQuality s)
        \<and> (maxQuality s = 1 \<or> known_too_big T (events w) (maxQuality s)))"

text \<open>
  The invariant the code keeps: as above, except that \<open>minQuality\<close> is only a lower
  bound of the best candidate's quality, which is \<open>bestQuality\<close>.
\<close>

definition search_invariant :: "rat \<Rightarrow> SearchState \<times> 'o world \<Rightarrow> bool" where
  "search_invariant T x \<longleftrightarrow>
     (case x of (s, w) \<Rightarrow>
        1 / 10 \<le> minQuality s \<and> minQuality s \<le> bestQuality s
        \<and> bestQuality s \<le> maxQuality s \<and> maxQuality s \<le> 1
        \<and> minQuality s < maxQuality s
        \<and> best_fits T s \<and> best_known (events w) s
        \<and> (bestBlob s = None \<longrightarrow> bestQuality s = 1 / 10)
        \<and> (bestBlob s \<noteq> None \<longrightarrow> 1 / 10 < bestQuality s)
        \<and> (maxQuality s = 1 \<or> known_too_big T (events w) (maxQuality s)))"

text \<open>
  What holds in addition at the loop heads: at the head of the bisection with counter
  \<open>attempt = a\<close> the bracket has been halved \<open>a - 1\<close> times and \<open>bestQuality\<close> is
  \<open>minQuality\<close>; at the head of the refinement with \<open>refinementPasses = n\<close> the distance
  between \<open>bestQuality\<close> and \<open>maxQuality\<close> has been halved \<open>n\<close> more times.
\<close>

definition bisect_inv :: "rat \<Rightarrow> nat \<times> SearchState \<times> 'o world \<Rightarrow> bool" where
  "bisect_inv T x \<longleftrightarrow>
     (case x of (a, s, w) \<Rightarrow>
        1 \<le> a \<and> a \<le> maxAttempts + 1
        \<and> maxQuality s - minQuality s = (9 / 10) / 2 ^ (a - 1)
        \<and> bestQuality s = minQuality s
        \<and> (bestBlob s = None \<longrightarrow> minQuality s = 1 / 10)
        \<and> search_invariant T (s, w))"

definition refine_inv :: "rat \<Rightarrow> nat \<times> SearchState \<times> 'o world \<Rightarrow> bool" where
  "refine_inv T x \<longleftrightarrow>
     (case x of (n, s, w) \<Rightarrow>
        n \<le> maxRefinementPasses
        \<and> (bestBlob s \<noteq> None \<longrightarrow> maxQuality s - bestQuality s = (9 / 10) / 2 ^ (6 + n))
        \<and> (bestBlob s = None \<longrightarrow> n = 0)
        \<and> search_invariant T (s, w))"

subsection \<open>Reading the trace\<close>

text \<open>
  \<open>fit_above_floor T evs\<close>: some call at a quality above 0.1 (the probe, a bisection or
  a refinement trial) came back with a blob of at most \<open>T\<close> bytes. \<open>never_fails\<close>: the
  assembler returns a blob for these pages, whatever the quality and its own state.
\<close>

definition fit_above_floor :: "rat \<Rightarrow> event list \<Rightarrow> bool" where
  "fit_above_floor T evs \<longleftrightarrow>
     list_ex (\<lambda>ev. case ev of
                     Assemble q r \<Rightarrow> (case r of Inr b \<Rightarrow> 1 / 10 < q \<and> fits b T | Inl e \<Rightarrow> False)
                   | Progress p \<Rightarrow> False) evs"

definition never_fails :: "'o assembler \<Rightarrow> RenderedPage list \<Rightarrow> bool" where
  "never_fails jsPDF pages \<longleftrightarrow> (\<forall>q o1. \<exists>b o2. jsPDF pages q o1 = (Inr b, o2))"

text \<open>
  The progress record has no field for the phase of the search: \<open>stage\<close> is
  \<open>"optimizing"\<close> throughout. What tells the phases apart is the message, read back
  here by \<open>phase_of\<close>. \<open>call_phases\<close> lists, for each assembler call of a trace, the
  phase named by the report made immediately before it (\<open>None\<close> when no report was);
  \<open>call_reports\<close> lists those reports.
\<close>

datatype phase = Probing | Bisecting | Refining | Fallback

definition phase_of :: "CompressionProgress \<Rightarrow> phase option" where
  "phase_of p =
     (if message p = ''Testing maximum quality...'' then Some Probing
      else if take 8 (message p) = ''Attempt '' then Some Bisecting
      else if take 10 (message p) = ''Refining: '' then Some Refining
      else if message p = ''Target too small - using minimum quality...'' then Some Fallback
      else None)"



fun reports :: "event list \<Rightarrow> CompressionProgress list" where
  "reports (Progress p # evs) = p # reports evs"
| "reports (Assemble q r # evs) = reports evs"
| "reports [] = []"



text \<open>
  What every report of a target-size run satisfies: the stage is \<open>"optimizing"\<close> (or
  \<open>"complete"\<close>), there is a message, and an attempt index comes with the reports of
  the probe and of the bisection, not with those of the refinement and the fallback.
\<close>

definition report_ok :: "CompressionProgress \<Rightarrow> bool" where
  "report_ok p \<longleftrightarrow>
     (stage p = Optimizing \<or> stage p = Complete) \<and> message p \<noteq> []
     \<and> (case phase_of p of
           None \<Rightarrow> True
         | Some ph \<Rightarrow> (attempt p \<noteq> None) = (ph = Probing \<or> ph = Bisecting))"

text \<open>\<open>block ph evs\<close>: the trace segment is a row of reports of phase \<open>ph\<close>, each
  followed by its assembler call.\<close>

fun block :: "phase \<Rightarrow> event list \<Rightarrow> bool" where
  "block ph [] = True"
| "block ph (Progress p # Assemble q r # evs) =
     (phase_of p = Some ph \<and> report_ok p \<and> block ph evs)"
| "block ph evs = False"

subsection \<open>A sample assembler\<close>

text \<open>
  For concrete runs: an assembler whose output at quality \<open>q\<close> has \<open>\<lfloor>10 q\<rfloor>\<close> bytes, a
  one-page document, and settings that ask for a target of \<open>bytes\<close> bytes.
\<close>

definition demo_jsPDF :: "unit assembler" where
  "demo_jsPDF pages q u = (Inr (replicate (nat \<lfloor>q * 10\<rfloor>) 0), u)"

definition demo_pages :: "RenderedPage list" where
  "demo_pages = [\<lparr>canvas = [], width = 10, height = 20\<rparr>]"

definition demo_settings :: "rat \<Rightarrow> CompressionSettings" where
  "demo_settings bytes = \<lparr>quality = 1 / 2, dpi = 144, targetSizeMB = Some (bytes / 1048576)\<rparr>"

text \<open>
  A second assembler, with a step exactly at the floor: 1 byte at quality 0.1 and below,
  9 bytes above.
\<close>

definition step_jsPDF :: "unit assembler" where
  "step_jsPDF pages q u = (Inr (replicate (if q \<le> 1 / 10 then 1 else 9) 0), u)"

definition step_run :: "rat \<Rightarrow> (CompressionResult, unit) outcome" where
  "step_run bytes =
     compressPDF (\<lambda>x. ''?'') step_jsPDF demo_pages 1000 (demo_settings bytes) (init_world ())"

definition demo_run :: "rat \<Rightarrow> (CompressionResult, unit) outcome" where
  "demo_run bytes =
     compressPDF (\<lambda>x. ''?'') demo_jsPDF demo_pages 1000 (demo_settings bytes) (init_world ())"

definition demo_bisect :: "rat \<Rightarrow> (nat \<times> SearchState \<times> unit world) list" where
  "demo_bisect bytes =
     bisect_phase (\<lambda>x. ''?'') demo_jsPDF demo_pages (demo_settings bytes) (bytes / 1048576)
       (init_world ())"


definition demo_points :: "rat \<Rightarrow> (SearchState \<times> unit world) list" where
  "demo_points bytes =
     search_points (\<lambda>x. ''?'') demo_jsPDF demo_pages (demo_settings bytes) (bytes / 1048576)
       (init_world ())"

section \<open>JSON formatter: the engine (src/lib/tools/json-formatter.ts)\<close>

text \<open>
  A JavaScript string is a sequence of 16-bit code units. \<open>JSON.parse\<close>,
  \<open>JSON.stringify\<close> and \<open>String.prototype.repeat\<close> belong to the host, not to the
  repository, and are taken as a parameter \<open>h\<close> of the model: \<open>JSON_parse\<close> gives the
  parsed value or the message of the SyntaxError it throws, \<open>JSON_stringify v gap\<close> the
  text of a parsed value (\<open>gap\<close> empty when no indentation is asked for), and
  \<open>range_error n\<close> the message of the RangeError that \<open>repeat\<close> throws on a negative
  count \<open>n\<close>. The values \<open>'v\<close> themselves stay abstract; \<open>sortObjectKeys\<close> (lines
  177-194), which works on them and which neither claim exercises, is a parameter of
  \<open>formatJSON\<close>.
\<close>

type_synonym jsstring = "16 word list"

definition lit :: "string \<Rightarrow> jsstring" where
  "lit s = map of_char s"

record 'v host =
  JSON_parse :: "jsstring \<Rightarrow> jsstring + 'v"
  JSON_stringify :: "'v \<Rightarrow> jsstring \<Rightarrow> jsstring"
  range_error :: "int \<Rightarrow> jsstring"

datatype indent_char = Space | Tab

record FormatOptions =
  indentSize :: int
  indentChar :: indent_char
  sortKeys :: bool

record ErrorInfo =
  error_message :: jsstring
  line :: "nat option"
  column :: "nat option"
  position :: "nat option"

record ValidationResult =
  isValid :: bool
  validation_error :: "ErrorInfo option"

record FormatResult =
  success :: bool
  output_text :: jsstring
  error :: "jsstring option"

definition DEFAULT_FORMAT_OPTIONS :: FormatOptions where
  "DEFAULT_FORMAT_OPTIONS = \<lparr>indentSize = 2, indentChar = Space, sortKeys = False\<rparr>"

text \<open>
  \<open>String.prototype.trim\<close> strips the white space and line terminators of ECMAScript
  from both ends: TAB, LF, VT, FF, CR, space, NBSP, U+1680, U+2000 to U+200A, U+2028,
  U+2029, U+202F, U+205F, U+3000 and U+FEFF.
\<close>

definition is_js_space :: "16 word \<Rightarrow> bool" where
  "is_js_space c \<longleftrightarrow>
     (0x09 \<le> c \<and> c \<le> 0x0D) \<or> c = 0x20 \<or> c = 0xA0 \<or> c = 0x1680
     \<or> (0x2000 \<le> c \<and> c \<le> 0x200A) \<or> c = 0x2028 \<or> c = 0x2029 \<or> c = 0x202F
     \<or> c = 0x205F \<or> c = 0x3000 \<or> c = 0xFEFF"

definition trim :: "jsstring \<Rightarrow> jsstring" where
  "trim s = rev (dropWhile is_js_space (rev (dropWhile is_js_space s)))"

text \<open>
  \<open>error.message.match(/at position (\d+)/)\<close>: the digits after the leftmost
  \<open>"at position "\<close> that is followed by a digit; \<open>parseInt(match[1], 10)\<close> reads them.
\<close>

definition is_digit :: "16 word \<Rightarrow> bool" where
  "is_digit c \<longleftrightarrow> 0x30 \<le> c \<and> c \<le> 0x39"

fun match_position :: "jsstring \<Rightarrow> jsstring option" where
  "match_position [] = None"
| "match_position (c # cs) =
     (if take 12 (c # cs) = lit ''at position '' \<and> takeWhile is_digit (drop 12 (c # cs)) \<noteq> []
      then Some (takeWhile is_digit (drop 12 (c # cs)))
      else match_position cs)"

definition parseInt :: "jsstring \<Rightarrow> nat" where
  "parseInt ds = foldl (\<lambda>n c. 10 * n + unat (c - 0x30)) 0 ds"

text \<open>\<open>s.split("\n")\<close>: the pieces between the line feeds, at least one.\<close>

fun split_newline :: "jsstring \<Rightarrow> jsstring list" where
  "split_newline [] = [[]]"
| "split_newline (c # cs) =
     (if c = 0x0A then [] # split_newline cs
      else (case split_newline cs of
              [] \<Rightarrow> [[c]]
            | l # ls \<Rightarrow> (c # l) # ls))"

text \<open>Lines 38-71.\<close>

definition validateJSON :: "'v host \<Rightarrow> jsstring \<Rightarrow> ValidationResult" where
  "validateJSON h input =
     (if trim input = []
      then \<lparr>isValid = False,
            validation_error = Some \<lparr>error_message = lit ''Input is empty'', line = None,
                                     column = None, position = None\<rparr>\<rparr>
      else (case JSON_parse h input of
              Inr v \<Rightarrow> \<lparr>isValid = True, validation_error = None\<rparr>
            | Inl msg \<Rightarrow>
                (let pos = map_option parseInt (match_position msg);
                     lines = map_option (\<lambda>n. split_newline (take n input)) pos
                 in \<lparr>isValid = False,
                     validation_error = Some
                       \<lparr>error_message = msg,
                        line = map_option length lines,
                        column = map_option (\<lambda>ls. length (last ls) + 1) lines,
                        position = pos\<rparr>\<rparr>)))"

text \<open>
  \<open>" ".repeat(options.indentSize)\<close>, which throws a RangeError on a negative count
  (inside the \<open>try\<close> of \<open>formatJSON\<close>). The host's limit on the length of a string
  is not modelled.
\<close>

definition repeat_space :: "'v host \<Rightarrow> int \<Rightarrow> jsstring + jsstring" where
  "repeat_space h n = (if n < 0 then Inl (range_error h n) else Inr (replicate (nat n) 0x20))"

text \<open>Lines 76-109.\<close>

definition formatJSON ::
  "'v host \<Rightarrow> ('v \<Rightarrow> 'v) \<Rightarrow> jsstring \<Rightarrow> FormatOptions \<Rightarrow> FormatResult" where
  "formatJSON h sortObjectKeys input options =
     (let validation = validateJSON h input in
      if \<not> isValid validation
      then \<lparr>success = False, output_text = input,
            error = map_option error_message (validation_error validation)\<rparr>
      else (case JSON_parse h input of
              Inl msg \<Rightarrow> \<lparr>success = False, output_text = input, error = Some msg\<rparr>
            | Inr parsed0 \<Rightarrow>
                (let parsed = (if sortKeys options then sortObjectKeys parsed0 else parsed0)
                 in case (if indentChar options = Tab then Inr [0x09]
                          else repeat_space h (indentSize options)) of
                      Inl msg \<Rightarrow> \<lparr>success = False, output_text = input, error = Some msg\<rparr>
                    | Inr indent \<Rightarrow>
                        \<lparr>success = True, output_text = JSON_stringify h parsed indent,
                         error = None\<rparr>)))"

text \<open>Lines 114-140.\<close>

definition minifyJSON :: "'v host \<Rightarrow> jsstring \<Rightarrow> FormatResult" where
  "minifyJSON h input =
     (let validation = validateJSON h input in
      if \<not> isValid validation
      then \<lparr>success = False, output_text = input,
            error = map_option error_message (validation_error validation)\<rparr>
      else (case JSON_parse h input of
              Inl msg \<Rightarrow> \<lparr>success = False, output_text = input, error = Some msg\<rparr>
            | Inr parsed \<Rightarrow>
                \<lparr>success = True, output_text = JSON_stringify h parsed [], error = None\<rparr>))"

text \<open>
  \<open>invalid_json h input\<close>: the input is blank, or \<open>JSON.parse\<close> throws on it.
  \<open>speaking_host h\<close>: the SyntaxErrors of the host have a message.
\<close>

definition invalid_json :: "'v host \<Rightarrow> jsstring \<Rightarrow> bool" where
  "invalid_json h input \<longleftrightarrow>
     trim input = [] \<or> (case JSON_parse h input of Inl msg \<Rightarrow> True | Inr v \<Rightarrow> False)"

definition speaking_host :: "'v host \<Rightarrow> bool" where
  "speaking_host h \<longleftrightarrow> (\<forall>s msg. JSON_parse h s = Inl msg \<longrightarrow> msg \<noteq> [])"



text \<open>
  A sample host for concrete runs: its values are natural numbers, it reads a non-empty
  row of decimal digits and rejects everything else.
\<close>

definition demo_host :: "nat host" where
  "demo_host =
     \<lparr>JSON_parse = (\<lambda>s. if s \<noteq> [] \<and> list_all is_digit s then Inr (parseInt s)
                         else Inl (lit ''Unexpected token in JSON at position 0'')),
      JSON_stringify = (\<lambda>v gap. lit (show_nat v)),
      range_error = (\<lambda>n. lit ''Invalid count value'')\<rparr>"

section \<open>PDF compressor: auxiliary facts\<close>

subsection \<open>One call of the assembler, one pass of a loop\<close>

lemma generate_disj:
  "(\<exists>e w'. generatePDFFromCanvases jsPDF pages q w = Threw e w'
       \<and> events w' = events w @ [Assemble q (Inl e)])
   \<or> (\<exists>b w'. generatePDFFromCanvases jsPDF pages q w = Ok b w'
       \<and> events w' = events w @ [Assemble q (Inr b)] \<and> pages \<noteq> []
       \<and> jsPDF pages q (libState w) = (Inr b, libState w'))"
  unfolding generatePDFFromCanvases_def
  by (auto split: list.splits prod.splits sum.splits)

lemma generate_cases [case_names threw ok]:
  obtains e w' where "generatePDFFromCanvases jsPDF pages q w = Threw e w'"
      "events w' = events w @ [Assemble q (Inl e)]"
  | b w' where "generatePDFFromCanvases jsPDF pages q w = Ok b w'"
      "events w' = events w @ [Assemble q (Inr b)]" "pages \<noteq> []"
      "jsPDF pages q (libState w) = (Inr b, libState w')"
  using generate_disj [of jsPDF pages q w] by blast

lemma bisect_body_cases [case_names threw fit nofit]:
  fixes s :: SearchState
  defines "tq \<equiv> (minQuality s + maxQuality s) / 2"
  obtains e w' where "bisect_body jsPDF pages T att s w = Threw e w'"
      "events w' = events w @ [Progress (progress_attempt (length pages) att tq), Assemble tq (Inl e)]"
  | b w' where "bisect_body jsPDF pages T att s w
        = Ok (s\<lparr>bestBlob := Some b, bestQuality := tq, minQuality := tq\<rparr>) w'"
      "fits b T"
      "events w' = events w @ [Progress (progress_attempt (length pages) att tq), Assemble tq (Inr b)]"
  | b w' where "bisect_body jsPDF pages T att s w = Ok (s\<lparr>maxQuality := tq\<rparr>) w'"
      "\<not> fits b T"
      "events w' = events w @ [Progress (progress_attempt (length pages) att tq), Assemble tq (Inr b)]"
proof (cases rule: generate_cases [of jsPDF pages tq "onProgress (progress_attempt (length pages) att tq) w"])
  case (threw e w')
  then show ?thesis
    using that(1) by (simp add: bisect_body_def tq_def onProgress_def Let_def)
next
  case (ok b w')
  show ?thesis
  proof (cases "fits b T")
    case True
    with ok show ?thesis
      using that(2) by (simp add: bisect_body_def tq_def onProgress_def Let_def)
  next
    case False
    with ok show ?thesis
      using that(3) by (simp add: bisect_body_def tq_def onProgress_def Let_def)
  qed
qed

lemma refine_body_cases [case_names threw fit nofit]:
  fixes s :: SearchState
  defines "rq \<equiv> (bestQuality s + maxQuality s) / 2"
  obtains e w' where "refine_body jsPDF pages T s w = Threw e w'"
      "events w' = events w @ [Progress (progress_refine (length pages) rq), Assemble rq (Inl e)]"
  | b w' where "refine_body jsPDF pages T s w
        = Ok (s\<lparr>bestBlob := Some b, bestQuality := rq\<rparr>) w'"
      "fits b T"
      "events w' = events w @ [Progress (progress_refine (length pages) rq), Assemble rq (Inr b)]"
  | b w' where "refine_body jsPDF pages T s w = Ok (s\<lparr>maxQuality := rq\<rparr>) w'"
      "\<not> fits b T"
      "events w' = events w @ [Progress (progress_refine (length pages) rq), Assemble rq (Inr b)]"
proof (cases rule: generate_cases [of jsPDF pages rq "onProgress (progress_refine (length pages) rq) w"])
  case (threw e w')
  then show ?thesis
    using that(1) by (simp add: refine_body_def rq_def onProgress_def Let_def)
next
  case (ok b w')
  show ?thesis
  proof (cases "fits b T")
    case True
    with ok show ?thesis
      using that(2) by (simp add: refine_body_def rq_def onProgress_def Let_def)
  next
    case False
    with ok show ?thesis
      using that(3) by (simp add: refine_body_def rq_def onProgress_def Let_def)
  qed
qed

lemma calls_append [simp]: "assembler_calls (xs @ ys) = assembler_calls xs + assembler_calls ys"
  by (simp add: assembler_calls_def)

lemma calls_Cons_call [simp]: "assembler_calls (Assemble q r # xs) = Suc (assembler_calls xs)"
  by (simp add: assembler_calls_def)

lemma calls_Cons_progress [simp]: "assembler_calls (Progress p # xs) = assembler_calls xs"
  by (simp add: assembler_calls_def)

lemma calls_Nil [simp]: "assembler_calls [] = 0"
  by (simp add: assembler_calls_def)

lemma bisect_body_calls:
  "assembler_calls (events (out_world (bisect_body jsPDF pages T att s w)))
     = assembler_calls (events w) + 1"
  by (cases rule: bisect_body_cases [of jsPDF pages T att s w]) simp_all

lemma refine_body_calls:
  "assembler_calls (events (out_world (refine_body jsPDF pages T s w)))
     = assembler_calls (events w) + 1"
  by (cases rule: refine_body_cases [of jsPDF pages T s w]) simp_all

lemma bisect_loop_calls:
  "assembler_calls (events (out_world (bisect_loop jsPDF pages T att s w)))
     \<le> assembler_calls (events w) + (maxAttempts + 1 - att)"
proof (induction jsPDF pages T att s w rule: bisect_loop.induct)
  case (1 jsPDF pages T att s w)
  show ?case
  proof (cases "att \<le> maxAttempts")
    case False
    then show ?thesis by (simp add: bisect_loop.simps [of jsPDF pages T att s w])
  next
    case True
    show ?thesis
    proof (cases "bisect_body jsPDF pages T att s w")
      case (Threw e w')
      with True bisect_body_calls [of jsPDF pages T att s w] show ?thesis
        by (simp add: bisect_loop.simps [of jsPDF pages T att s w])
    next
      case (Ok s' w')
      with True bisect_body_calls [of jsPDF pages T att s w] "1.IH" [OF True Ok] show ?thesis
        by (simp add: bisect_loop.simps [of jsPDF pages T att s w])
    qed
  qed
qed

lemma refine_loop_calls:
  "assembler_calls (events (out_world (refine_loop jsPDF pages T n s w)))
     \<le> assembler_calls (events w) + (maxRefinementPasses - n)"
proof (induction jsPDF pages T n s w rule: refine_loop.induct)
  case (1 jsPDF pages T n s w)
  show ?case
  proof (cases "refine_cond s n")
    case False
    then show ?thesis by (simp add: refine_loop.simps [of jsPDF pages T n s w])
  next
    case True
    then have lt: "n < maxRefinementPasses" by (simp add: refine_cond_def)
    show ?thesis
    proof (cases "refine_body jsPDF pages T s w")
      case (Threw e w')
      with True lt refine_body_calls [of jsPDF pages T s w] show ?thesis
        by (simp add: refine_loop.simps [of jsPDF pages T n s w])
    next
      case (Ok s' w')
      with True lt refine_body_calls [of jsPDF pages T s w] "1.IH" [OF True Ok] show ?thesis
        by (simp add: refine_loop.simps [of jsPDF pages T n s w])
    qed
  qed
qed

lemma bisect_loop_calls_mono:
  "assembler_calls (events w)
     \<le> assembler_calls (events (out_world (bisect_loop jsPDF pages T att s w)))"
proof (induction jsPDF pages T att s w rule: bisect_loop.induct)
  case (1 jsPDF pages T att s w)
  show ?case
  proof (cases "att \<le> maxAttempts")
    case False
    then show ?thesis by (simp add: bisect_loop.simps [of jsPDF pages T att s w])
  next
    case True
    show ?thesis
    proof (cases "bisect_body jsPDF pages T att s w")
      case (Threw e w')
      with True bisect_body_calls [of jsPDF pages T att s w] show ?thesis
        by (simp add: bisect_loop.simps [of jsPDF pages T att s w])
    next
      case (Ok s' w')
      with True bisect_body_calls [of jsPDF pages T att s w] "1.IH" [OF True Ok] show ?thesis
        by (simp add: bisect_loop.simps [of jsPDF pages T att s w])
    qed
  qed
qed

lemma refine_loop_calls_mono:
  "assembler_calls (events w)
     \<le> assembler_calls (events (out_world (refine_loop jsPDF pages T n s w)))"
proof (induction jsPDF pages T n s w rule: refine_loop.induct)
  case (1 jsPDF pages T n s w)
  show ?case
  proof (cases "refine_cond s n")
    case False
    then show ?thesis by (simp add: refine_loop.simps [of jsPDF pages T n s w])
  next
    case True
    then have lt: "n < maxRefinementPasses" by (simp add: refine_cond_def)
    show ?thesis
    proof (cases "refine_body jsPDF pages T s w")
      case (Threw e w')
      with True lt refine_body_calls [of jsPDF pages T s w] show ?thesis
        by (simp add: refine_loop.simps [of jsPDF pages T n s w])
    next
      case (Ok s' w')
      with True lt refine_body_calls [of jsPDF pages T s w] "1.IH" [OF True Ok] show ?thesis
        by (simp add: refine_loop.simps [of jsPDF pages T n s w])
    qed
  qed
qed

text \<open>A rule for facts that every pass of a loop keeps.\<close>

lemma bisect_loop_keeps:
  assumes "bisect_loop jsPDF pages T att s w = Ok s' w'"
    and "P s w"
    and "\<And>a s w s' w'. P s w \<Longrightarrow> bisect_body jsPDF pages T a s w = Ok s' w' \<Longrightarrow> P s' w'"
  shows "P s' w'"
  using assms
proof (induction jsPDF pages T att s w rule: bisect_loop.induct)
  case (1 jsPDF pages T att s w)
  show ?case
  proof (cases "att \<le> maxAttempts")
    case False
    with "1.prems" show ?thesis by (simp add: bisect_loop.simps [of jsPDF pages T att s w])
  next
    case True
    show ?thesis
    proof (cases "bisect_body jsPDF pages T att s w")
      case (Threw e w1)
      with True "1.prems" show ?thesis by (simp add: bisect_loop.simps [of jsPDF pages T att s w])
    next
      case (Ok s1 w1)
      with True "1.prems" have "bisect_loop jsPDF pages T (att + 1) s1 w1 = Ok s' w'"
        by (simp add: bisect_loop.simps [of jsPDF pages T att s w])
      moreover have "P s1 w1" using "1.prems"(3) [OF "1.prems"(2) Ok] .
      ultimately show ?thesis using "1.IH" [OF True Ok] "1.prems"(3) by blast
    qed
  qed
qed

lemma refine_loop_keeps:
  assumes "refine_loop jsPDF pages T n s w = Ok s' w'"
    and "P s w"
    and "\<And>s w s' w'. P s w \<Longrightarrow> refine_body jsPDF pages T s w = Ok s' w' \<Longrightarrow> P s' w'"
  shows "P s' w'"
  using assms
proof (induction jsPDF pages T n s w rule: refine_loop.induct)
  case (1 jsPDF pages T n s w)
  show ?case
  proof (cases "refine_cond s n")
    case False
    with "1.prems" show ?thesis by (simp add: refine_loop.simps [of jsPDF pages T n s w])
  next
    case True
    show ?thesis
    proof (cases "refine_body jsPDF pages T s w")
      case (Threw e w1)
      with True "1.prems" show ?thesis by (simp add: refine_loop.simps [of jsPDF pages T n s w])
    next
      case (Ok s1 w1)
      with True "1.prems" have "refine_loop jsPDF pages T (n + 1) s1 w1 = Ok s' w'"
        by (simp add: refine_loop.simps [of jsPDF pages T n s w])
      moreover have "P s1 w1" using "1.prems"(3) [OF "1.prems"(2) Ok] .
      ultimately show ?thesis using "1.IH" [OF True Ok] "1.prems"(3) by blast
    qed
  qed
qed

subsection \<open>What the phases keep and how many calls they make\<close>

lemma bisect_body_best_fits:
  assumes "best_fits T s" "bisect_body jsPDF pages T att s w = Ok s' w'"
  shows "best_fits T s'"
  using assms
  by (cases rule: bisect_body_cases [of jsPDF pages T att s w]) (auto simp: best_fits_def)

lemma refine_body_best_fits:
  assumes "best_fits T s" "refine_body jsPDF pages T s w = Ok s' w'"
  shows "best_fits T s'"
  using assms
  by (cases rule: refine_body_cases [of jsPDF pages T s w]) (auto simp: best_fits_def)

lemma search_below_ceiling_Ok:
  assumes "search_below_ceiling jsPDF pages T s w = Ok s' w'"
  obtains s1 w1 s2 where "bisect_loop jsPDF pages T 1 s w = Ok s1 w1"
    "refine_loop jsPDF pages T 0 s1 w1 = Ok s2 w'" "s' = s2\<lparr>chosenQuality := bestQuality s2\<rparr>"
  using assms unfolding search_below_ceiling_def
  by (auto split: outcome.splits)

lemma search_below_ceiling_best_fits:
  assumes "best_fits T s" "search_below_ceiling jsPDF pages T s w = Ok s' w'"
  shows "best_fits T s'"
proof -
  from assms(2) obtain s1 w1 s2 where
    b: "bisect_loop jsPDF pages T 1 s w = Ok s1 w1" and
    r: "refine_loop jsPDF pages T 0 s1 w1 = Ok s2 w'" and
    s': "s' = s2\<lparr>chosenQuality := bestQuality s2\<rparr>"
    by (rule search_below_ceiling_Ok)
  have "best_fits T s1"
    by (rule bisect_loop_keeps [OF b, where P = "\<lambda>s w. best_fits T s"])
       (use assms(1) bisect_body_best_fits in blast)+
  then have "best_fits T s2"
    by (rule refine_loop_keeps [OF r, where P = "\<lambda>s w. best_fits T s"])
       (use refine_body_best_fits in blast)
  then show ?thesis by (simp add: s' best_fits_def)
qed

lemma ceiling_probe_cases [case_names threw fit nofit]:
  obtains e w' where "ceiling_probe jsPDF pages T s w = Threw e w'"
      "events w' = events w @ [Progress (progress_probe (length pages)), Assemble 1 (Inl e)]"
  | b w' where "ceiling_probe jsPDF pages T s w
        = Ok (s\<lparr>bestBlob := Some b, bestQuality := 1, chosenQuality := 1\<rparr>) w'"
      "fits b T" "pages \<noteq> []"
      "jsPDF pages 1 (libState w) = (Inr b, libState w')"
      "events w' = events w @ [Progress (progress_probe (length pages)), Assemble 1 (Inr b)]"
  | b w' where "ceiling_probe jsPDF pages T s w = search_below_ceiling jsPDF pages T s w'"
      "\<not> fits b T" "pages \<noteq> []"
      "jsPDF pages 1 (libState w) = (Inr b, libState w')"
      "events w' = events w @ [Progress (progress_probe (length pages)), Assemble 1 (Inr b)]"
proof (cases rule: generate_cases [of jsPDF pages 1 "onProgress (progress_probe (length pages)) w"])
  case (threw e w')
  then show ?thesis
    using that(1) by (simp add: ceiling_probe_def onProgress_def Let_def)
next
  case (ok b w')
  show ?thesis
  proof (cases "fits b T")
    case True
    with ok show ?thesis
      using that(2) by (simp add: ceiling_probe_def onProgress_def Let_def)
  next
    case False
    with ok show ?thesis
      using that(3) by (simp add: ceiling_probe_def onProgress_def Let_def)
  qed
qed

lemma ceiling_probe_best_fits:
  assumes "best_fits T s" "ceiling_probe jsPDF pages T s w = Ok s' w'"
  shows "best_fits T s'"
proof (cases rule: ceiling_probe_cases [of jsPDF pages T s w])
  case (threw e w1)
  with assms show ?thesis by simp
next
  case (fit b w1)
  with assms show ?thesis by (auto simp: best_fits_def)
next
  case (nofit b w1)
  with assms show ?thesis using search_below_ceiling_best_fits by metis
qed

lemma fallback_cases [case_names kept threw floor]:
  obtains b where "bestBlob s = Some b" "fallback jsPDF pages s w = Ok (b, chosenQuality s) w"
  | e w' where "bestBlob s = None" "fallback jsPDF pages s w = Threw e w'"
      "events w' = events w @ [Progress (progress_fallback (length pages)), Assemble (1 / 10) (Inl e)]"
  | b w' where "bestBlob s = None" "fallback jsPDF pages s w = Ok (b, 1 / 10) w'"
      "events w' = events w @ [Progress (progress_fallback (length pages)), Assemble (1 / 10) (Inr b)]"
proof (cases "bestBlob s")
  case (Some b)
  then show ?thesis using that(1) by (simp add: fallback_def)
next
  case None
  show ?thesis
  proof (cases rule: generate_cases [of jsPDF pages "1 / 10" "onProgress (progress_fallback (length pages)) w"])
    case (threw e w')
    with None show ?thesis
      using that(2) by (simp add: fallback_def onProgress_def Let_def)
  next
    case (ok b w')
    with None show ?thesis
      using that(3) by (simp add: fallback_def onProgress_def Let_def)
  qed
qed

lemma compressPDF_target_Ok:
  assumes "target_of settings = Some mb"
    and "compressPDF numToString jsPDF pages origSize settings w = Ok r w'"
  obtains s w1 w2 fq where
    "ceiling_probe jsPDF pages (targetBytes_of mb) (initial_state settings)
       (onProgress (progress_finding numToString (length pages) mb) w) = Ok s w1"
    "fallback jsPDF pages s w1 = Ok (blob r, fq) w2"
    "finalQuality r = Some fq"
    "w' = onProgress (progress_complete (length pages)) w2"
    "compressedSize r = blob_size (blob r)"
  using assms unfolding compressPDF_def target_mode_def
  by (auto simp: Let_def split: outcome.splits prod.splits)

lemma refine_body_keeps_best:
  assumes "bestBlob s \<noteq> None" "refine_body jsPDF pages T s w = Ok s' w'"
  shows "bestBlob s' \<noteq> None"
  using assms by (cases rule: refine_body_cases [of jsPDF pages T s w]) auto

lemma refine_loop_unentered:
  assumes "refine_loop jsPDF pages T n s w = Ok s' w'" "bestBlob s' = None"
  shows "s' = s \<and> w' = w"
proof (cases "refine_cond s n")
  case False
  with assms(1) show ?thesis by (simp add: refine_loop.simps [of jsPDF pages T n s w])
next
  case True
  then have "bestBlob s \<noteq> None" by (simp add: refine_cond_def)
  then have "bestBlob s' \<noteq> None"
    by (rule refine_loop_keeps [OF assms(1), where P = "\<lambda>s w. bestBlob s \<noteq> None"])
       (use refine_body_keeps_best in blast)
  with assms(2) show ?thesis by simp
qed

lemma search_below_ceiling_calls:
  "case search_below_ceiling jsPDF pages T s w of
     Threw e w' \<Rightarrow> assembler_calls (events w') \<le> assembler_calls (events w) + 10
       \<and> assembler_calls (events w) \<le> assembler_calls (events w')
   | Ok s' w' \<Rightarrow> assembler_calls (events w') \<le> assembler_calls (events w) + 10
       \<and> assembler_calls (events w) \<le> assembler_calls (events w')
       \<and> (bestBlob s' = None \<longrightarrow> assembler_calls (events w') \<le> assembler_calls (events w) + 6)"
proof (cases "bisect_loop jsPDF pages T 1 s w")
  case (Threw e w1)
  with bisect_loop_calls [of jsPDF pages T 1 s w] bisect_loop_calls_mono [of w jsPDF pages T 1 s]
  show ?thesis
    by (simp add: search_below_ceiling_def maxAttempts_def)
next
  case b: (Ok s1 w1)
  with bisect_loop_calls [of jsPDF pages T 1 s w] bisect_loop_calls_mono [of w jsPDF pages T 1 s]
  have c1: "assembler_calls (events w1) \<le> assembler_calls (events w) + 6"
    and m1: "assembler_calls (events w) \<le> assembler_calls (events w1)"
    by (simp_all add: maxAttempts_def)
  show ?thesis
  proof (cases "refine_loop jsPDF pages T 0 s1 w1")
    case (Threw e w2)
    with b c1 m1 refine_loop_calls [of jsPDF pages T 0 s1 w1]
      refine_loop_calls_mono [of w1 jsPDF pages T 0 s1] show ?thesis
      by (simp add: search_below_ceiling_def maxRefinementPasses_def)
  next
    case r: (Ok s2 w2)
    have c2: "assembler_calls (events w2) \<le> assembler_calls (events w) + 10"
      and m2: "assembler_calls (events w) \<le> assembler_calls (events w2)"
      using r c1 m1 refine_loop_calls [of jsPDF pages T 0 s1 w1]
        refine_loop_calls_mono [of w1 jsPDF pages T 0 s1]
      by (simp_all add: maxRefinementPasses_def)
    have "assembler_calls (events w2) \<le> assembler_calls (events w) + 6" if "bestBlob s2 = None"
      using refine_loop_unentered [OF r that] c1 by simp
    with b r c2 m2 show ?thesis
      by (simp add: search_below_ceiling_def)
  qed
qed

lemma target_mode_calls:
  "assembler_calls (events (out_world (target_mode numToString jsPDF pages settings mb w)))
     \<le> assembler_calls (events w) + 11
   \<and> assembler_calls (events w)
     < assembler_calls (events (out_world (target_mode numToString jsPDF pages settings mb w)))"
proof -
  let ?T = "targetBytes_of mb"
  let ?w1 = "onProgress (progress_finding numToString (length pages) mb) w"
  let ?s0 = "initial_state settings"
  have w1: "assembler_calls (events ?w1) = assembler_calls (events w)"
    by (simp add: onProgress_def)
  have tm: "target_mode numToString jsPDF pages settings mb w =
    (case ceiling_probe jsPDF pages ?T ?s0 ?w1 of
       Threw e w2 \<Rightarrow> Threw e w2 | Ok s w2 \<Rightarrow> fallback jsPDF pages s w2)"
    by (simp add: target_mode_def Let_def)
  show ?thesis
  proof (cases rule: ceiling_probe_cases [of jsPDF pages ?T ?s0 ?w1])
    case (threw e w2)
    then show ?thesis using w1 by (simp add: tm)
  next
    case (fit b w2)
    then show ?thesis using w1 by (simp add: tm fallback_def)
  next
    case (nofit b w2)
    have c2: "assembler_calls (events w2) = assembler_calls (events w) + 1"
      using nofit(5) w1 by simp
    show ?thesis
    proof (cases "search_below_ceiling jsPDF pages ?T ?s0 w2")
      case (Threw e w3)
      with search_below_ceiling_calls [where jsPDF = jsPDF and pages = pages and T = ?T
          and s = ?s0 and w = w2] nofit(1) c2 show ?thesis
        by (simp add: tm)
    next
      case (Ok s w3)
      with search_below_ceiling_calls [where jsPDF = jsPDF and pages = pages and T = ?T
          and s = ?s0 and w = w2]
      have c3: "assembler_calls (events w3) \<le> assembler_calls (events w2) + 10"
        and c3': "bestBlob s = None \<Longrightarrow> assembler_calls (events w3) \<le> assembler_calls (events w2) + 6"
        and mono: "assembler_calls (events w2) \<le> assembler_calls (events w3)"
        by simp_all
      show ?thesis
      proof (cases rule: fallback_cases [of s jsPDF pages w3])
        case (kept b')
        with Ok nofit(1) c2 c3 mono show ?thesis by (simp add: tm)
      next
        case (threw e w4)
        with Ok nofit(1) c2 c3' mono show ?thesis by (simp add: tm)
      next
        case (floor b' w4)
        with Ok nofit(1) c2 c3' mono show ?thesis by (simp add: tm)
      qed
    qed
  qed
qed

lemma compressPDF_target_calls:
  assumes "target_of settings = Some mb"
  shows "assembler_calls (events (out_world (compressPDF numToString jsPDF pages origSize settings w)))
    = assembler_calls (events (out_world (target_mode numToString jsPDF pages settings mb w)))"
  using assms
  by (cases "target_mode numToString jsPDF pages settings mb w")
     (auto simp: compressPDF_def onProgress_def)

subsection \<open>The loop heads\<close>

lemma bisect_states_Cons:
  "\<exists>rest. bisect_states jsPDF pages T att s w = (att, s, w) # rest"
  by (subst bisect_states.simps) simp

lemma refine_states_Cons:
  "\<exists>rest. refine_states jsPDF pages T n s w = (n, s, w) # rest"
  by (subst refine_states.simps) simp

lemma bisect_states_keeps:
  assumes "P (att, s, w)"
    and "\<And>a s w s' w'. P (a, s, w) \<Longrightarrow> a \<le> maxAttempts
           \<Longrightarrow> bisect_body jsPDF pages T a s w = Ok s' w' \<Longrightarrow> P (a + 1, s', w')"
  shows "\<forall>x \<in> set (bisect_states jsPDF pages T att s w). P x"
  using assms
proof (induction jsPDF pages T att s w rule: bisect_states.induct)
  case (1 jsPDF pages T att s w)
  show ?case
  proof (cases "att \<le> maxAttempts")
    case False
    with "1.prems"(1) show ?thesis by (simp add: bisect_states.simps [of jsPDF pages T att s w])
  next
    case True
    show ?thesis
    proof (cases "bisect_body jsPDF pages T att s w")
      case (Threw e w1)
      with True "1.prems"(1) show ?thesis
        by (simp add: bisect_states.simps [of jsPDF pages T att s w])
    next
      case (Ok s1 w1)
      have "P (att + 1, s1, w1)" using "1.prems"(2) [OF "1.prems"(1) True Ok] .
      then have "\<forall>x \<in> set (bisect_states jsPDF pages T (att + 1) s1 w1). P x"
        using "1.IH" [OF True Ok] "1.prems"(2) by blast
      with True Ok "1.prems"(1) show ?thesis
        by (simp add: bisect_states.simps [of jsPDF pages T att s w])
    qed
  qed
qed

lemma refine_states_keeps:
  assumes "P (n, s, w)"
    and "\<And>n s w s' w'. P (n, s, w) \<Longrightarrow> refine_cond s n
           \<Longrightarrow> refine_body jsPDF pages T s w = Ok s' w' \<Longrightarrow> P (n + 1, s', w')"
  shows "\<forall>x \<in> set (refine_states jsPDF pages T n s w). P x"
  using assms
proof (induction jsPDF pages T n s w rule: refine_states.induct)
  case (1 jsPDF pages T n s w)
  show ?case
  proof (cases "refine_cond s n")
    case False
    with "1.prems"(1) show ?thesis by (simp add: refine_states.simps [of jsPDF pages T n s w])
  next
    case True
    show ?thesis
    proof (cases "refine_body jsPDF pages T s w")
      case (Threw e w1)
      with True "1.prems"(1) show ?thesis
        by (simp add: refine_states.simps [of jsPDF pages T n s w])
    next
      case (Ok s1 w1)
      have "P (n + 1, s1, w1)" using "1.prems"(2) [OF "1.prems"(1) True Ok] .
      then have "\<forall>x \<in> set (refine_states jsPDF pages T (n + 1) s1 w1). P x"
        using "1.IH" [OF True Ok] "1.prems"(2) by blast
      with True Ok "1.prems"(1) show ?thesis
        by (simp add: refine_states.simps [of jsPDF pages T n s w])
    qed
  qed
qed

lemma bisect_states_last:
  assumes "bisect_loop jsPDF pages T att s w = Ok s' w'" "att \<le> maxAttempts + 1"
  shows "last (bisect_states jsPDF pages T att s w) = (maxAttempts + 1, s', w')
    \<and> length (bisect_states jsPDF pages T att s w) = maxAttempts + 2 - att"
  using assms
proof (induction jsPDF pages T att s w rule: bisect_states.induct)
  case (1 jsPDF pages T att s w)
  show ?case
  proof (cases "att \<le> maxAttempts")
    case False
    with "1.prems" have att: "att = maxAttempts + 1" by simp
    from False have st: "bisect_states jsPDF pages T att s w = [(att, s, w)]"
      by (simp add: bisect_states.simps [of jsPDF pages T att s w])
    from False "1.prems" have lp: "s' = s" "w' = w"
      by (simp_all add: bisect_loop.simps [of jsPDF pages T att s w])
    from st lp att show ?thesis by simp
  next
    case True
    show ?thesis
    proof (cases "bisect_body jsPDF pages T att s w")
      case (Threw e w1)
      with True "1.prems" show ?thesis
        by (simp add: bisect_loop.simps [of jsPDF pages T att s w])
    next
      case (Ok s1 w1)
      with True "1.prems" have loop: "bisect_loop jsPDF pages T (att + 1) s1 w1 = Ok s' w'"
        by (simp add: bisect_loop.simps [of jsPDF pages T att s w])
      from True have le: "att + 1 \<le> maxAttempts + 1" by simp
      note ih = "1.IH" [OF True Ok loop le]
      obtain rest where rest: "bisect_states jsPDF pages T (att + 1) s1 w1 = (att + 1, s1, w1) # rest"
        using bisect_states_Cons by blast
      have st: "bisect_states jsPDF pages T att s w
          = (att, s, w) # bisect_states jsPDF pages T (att + 1) s1 w1"
        using True Ok by (simp add: bisect_states.simps [of jsPDF pages T att s w])
      from ih rest True show ?thesis
        unfolding st by auto
    qed
  qed
qed

lemma refine_states_last:
  assumes "refine_loop jsPDF pages T n s w = Ok s' w'"
  shows "\<exists>m. last (refine_states jsPDF pages T n s w) = (m, s', w') \<and> \<not> refine_cond s' m
    \<and> n \<le> m \<and> length (refine_states jsPDF pages T n s w) = m + 1 - n"
  using assms
proof (induction jsPDF pages T n s w rule: refine_states.induct)
  case (1 jsPDF pages T n s w)
  show ?case
  proof (cases "refine_cond s n")
    case False
    then have st: "refine_states jsPDF pages T n s w = [(n, s, w)]"
      by (simp add: refine_states.simps [of jsPDF pages T n s w])
    from False "1.prems" have lp: "s' = s" "w' = w"
      by (simp_all add: refine_loop.simps [of jsPDF pages T n s w])
    have "last (refine_states jsPDF pages T n s w) = (n, s', w') \<and> \<not> refine_cond s' n
        \<and> n \<le> n \<and> length (refine_states jsPDF pages T n s w) = n + 1 - n"
      using st lp False by simp
    then show ?thesis by blast
  next
    case True
    show ?thesis
    proof (cases "refine_body jsPDF pages T s w")
      case (Threw e w1)
      with True "1.prems" show ?thesis
        by (simp add: refine_loop.simps [of jsPDF pages T n s w])
    next
      case (Ok s1 w1)
      with True "1.prems" have loop: "refine_loop jsPDF pages T (n + 1) s1 w1 = Ok s' w'"
        by (simp add: refine_loop.simps [of jsPDF pages T n s w])
      from "1.IH" [OF True Ok loop] obtain m where
        m: "last (refine_states jsPDF pages T (n + 1) s1 w1) = (m, s', w')" "\<not> refine_cond s' m"
          "n + 1 \<le> m" "length (refine_states jsPDF pages T (n + 1) s1 w1) = m + 1 - (n + 1)"
        by blast
      obtain rest where rest: "refine_states jsPDF pages T (n + 1) s1 w1 = (n + 1, s1, w1) # rest"
        using refine_states_Cons by blast
      have st: "refine_states jsPDF pages T n s w
          = (n, s, w) # refine_states jsPDF pages T (n + 1) s1 w1"
        using True Ok by (simp add: refine_states.simps [of jsPDF pages T n s w])
      from m rest have "last (refine_states jsPDF pages T n s w) = (m, s', w')
          \<and> \<not> refine_cond s' m \<and> n \<le> m
          \<and> length (refine_states jsPDF pages T n s w) = m + 1 - n"
        unfolding st by auto
      then show ?thesis by blast
    qed
  qed
qed





subsection \<open>The invariants of the two loops\<close>

lemma known_too_big_append:
  "known_too_big T evs q \<Longrightarrow> known_too_big T (evs @ evs2) q"
  by (auto simp: known_too_big_def list_ex_iff)

lemma known_too_big_new:
  "\<not> fits b T \<Longrightarrow> known_too_big T (evs @ [Progress p, Assemble q (Inr b)]) q"
  by (simp add: known_too_big_def)

lemma halves:
  fixes lo hi :: rat
  shows "hi - (lo + hi) / 2 = (hi - lo) / 2" and "(lo + hi) / 2 - lo = (hi - lo) / 2"
  by (simp_all add: field_simps)

lemma midpoint_between:
  fixes lo hi :: rat
  assumes "lo < hi"
  shows "lo < (lo + hi) / 2" and "(lo + hi) / 2 < hi"
  using assms by (simp_all add: field_simps)

lemma width_step:
  "1 \<le> a \<Longrightarrow> ((9 / 10 :: rat) / 2 ^ (a - 1)) / 2 = (9 / 10) / 2 ^ (a + 1 - 1)"
  by (cases a) simp_all

lemma gap_step:
  "((9 / 10 :: rat) / 2 ^ (6 + n)) / 2 = (9 / 10) / 2 ^ (6 + (n + 1))"
  by (simp add: power_add)

lemma bisect_body_inv:
  assumes inv: "bisect_inv T (a, s, w)" and le: "a \<le> maxAttempts"
    and body: "bisect_body jsPDF pages T a s w = Ok s' w'"
  shows "bisect_inv T (a + 1, s', w')"
proof -
  let ?tq = "(minQuality s + maxQuality s) / 2"
  from inv have a1: "1 \<le> a"
    and width: "maxQuality s - minQuality s = (9 / 10) / 2 ^ (a - 1)"
    and bq: "bestQuality s = minQuality s"
    and none: "bestBlob s = None \<longrightarrow> minQuality s = 1 / 10"
    and lo: "1 / 10 \<le> minQuality s" and hi: "maxQuality s \<le> 1"
    and lt: "minQuality s < maxQuality s"
    and bf: "best_fits T s" and bk: "best_known (events w) s"
    and mk: "maxQuality s = 1 \<or> known_too_big T (events w) (maxQuality s)"
    and bn: "bestBlob s \<noteq> None \<longrightarrow> 1 / 10 < bestQuality s"
    by (auto simp: bisect_inv_def search_invariant_def)
  have w1: "maxQuality s - ?tq = (9 / 10) / 2 ^ (a + 1 - 1)"
    using width width_step [OF a1] by (simp add: halves)
  have w2: "?tq - minQuality s = (9 / 10) / 2 ^ (a + 1 - 1)"
    using width width_step [OF a1] by (simp add: halves)
  note mid = midpoint_between [OF lt]
  have ne: "1 / 10 < ?tq"
    using lo mid(1) by simp
  show ?thesis
  proof (cases rule: bisect_body_cases [of jsPDF pages T a s w])
    case (threw e w1)
    with body show ?thesis by simp
  next
    case (fit b w1)
    with body have s': "s' = s\<lparr>bestBlob := Some b, bestQuality := ?tq, minQuality := ?tq\<rparr>"
      and w': "w' = w1" by simp_all
    have "known_too_big T (events w') (maxQuality s)" if "known_too_big T (events w) (maxQuality s)"
      using that fit(3) w' by (simp add: known_too_big_append)
    with mk have mk': "maxQuality s = 1 \<or> known_too_big T (events w') (maxQuality s)"
      by blast
    have bk': "Assemble ?tq (Inr b) \<in> set (events w')"
      using fit(3) w' by simp
    show ?thesis
      using a1 le w1 lo hi mid fit(2) mk' bk' ne
      unfolding bisect_inv_def search_invariant_def s'
      by (simp add: best_fits_def best_known_def)
  next
    case (nofit b w1)
    with body have s': "s' = s\<lparr>maxQuality := ?tq\<rparr>" and w': "w' = w1" by simp_all
    have mk': "known_too_big T (events w') ?tq"
      using nofit(2,3) w' by (simp add: known_too_big_new)
    have bk': "best_known (events w') s"
      using bk nofit(3) w' by (auto simp: best_known_def split: option.splits)
    have bf': "best_fits T (s\<lparr>maxQuality := ?tq\<rparr>)"
      using bf by (simp add: best_fits_def)
    have bk'': "best_known (events w') (s\<lparr>maxQuality := ?tq\<rparr>)"
      using bk' by (simp add: best_known_def split: option.splits)
    show ?thesis
      using a1 le w2 lo hi mid bq none mk' bf' bk'' bn
      unfolding bisect_inv_def search_invariant_def s'
      by simp
  qed
qed

lemma refine_body_inv:
  assumes inv: "refine_inv T (n, s, w)" and cond: "refine_cond s n"
    and body: "refine_body jsPDF pages T s w = Ok s' w'"
  shows "refine_inv T (n + 1, s', w')"
proof -
  let ?rq = "(bestQuality s + maxQuality s) / 2"
  from cond have some: "bestBlob s \<noteq> None" and n4: "n < maxRefinementPasses"
    and far: "bestQuality s < maxQuality s - 5 / 1000"
    by (simp_all add: refine_cond_def)
  from far have lt: "bestQuality s < maxQuality s" by simp
  from inv some have gap: "maxQuality s - bestQuality s = (9 / 10) / 2 ^ (6 + n)"
    and lo: "1 / 10 \<le> minQuality s" and mb: "minQuality s \<le> bestQuality s"
    and hi: "maxQuality s \<le> 1"
    and bf: "best_fits T s" and bk: "best_known (events w) s"
    and mk: "maxQuality s = 1 \<or> known_too_big T (events w) (maxQuality s)"
    and bn: "bestBlob s \<noteq> None \<longrightarrow> 1 / 10 < bestQuality s"
    by (auto simp: refine_inv_def search_invariant_def)
  have g1: "maxQuality s - ?rq = (9 / 10) / 2 ^ (6 + (n + 1))"
    using gap gap_step [of n] by (simp add: halves)
  have g2: "?rq - bestQuality s = (9 / 10) / 2 ^ (6 + (n + 1))"
    using gap gap_step [of n] by (simp add: halves)
  note mid = midpoint_between [OF lt]
  have ne: "1 / 10 < ?rq"
    using lo mb mid(1) by simp
  show ?thesis
  proof (cases rule: refine_body_cases [of jsPDF pages T s w])
    case (threw e w1)
    with body show ?thesis by simp
  next
    case (fit b w1)
    with body have s': "s' = s\<lparr>bestBlob := Some b, bestQuality := ?rq\<rparr>"
      and w': "w' = w1" by simp_all
    have "known_too_big T (events w') (maxQuality s)" if "known_too_big T (events w) (maxQuality s)"
      using that fit(3) w' by (simp add: known_too_big_append)
    with mk have mk': "maxQuality s = 1 \<or> known_too_big T (events w') (maxQuality s)"
      by blast
    have bk': "Assemble ?rq (Inr b) \<in> set (events w')"
      using fit(3) w' by simp
    have m1: "minQuality s \<le> ?rq" "minQuality s < maxQuality s"
      using mb mid lt by simp_all
    show ?thesis
      using n4 g1 lo hi mid m1 fit(2) mk' bk' ne
      unfolding refine_inv_def search_invariant_def s'
      by (simp add: best_fits_def best_known_def)
  next
    case (nofit b w1)
    with body have s': "s' = s\<lparr>maxQuality := ?rq\<rparr>" and w': "w' = w1" by simp_all
    have mk': "known_too_big T (events w') ?rq"
      using nofit(2,3) w' by (simp add: known_too_big_new)
    have bk': "best_known (events w') s"
      using bk nofit(3) w' by (auto simp: best_known_def split: option.splits)
    have bf': "best_fits T (s\<lparr>maxQuality := ?rq\<rparr>)"
      using bf by (simp add: best_fits_def)
    have bk'': "best_known (events w') (s\<lparr>maxQuality := ?rq\<rparr>)"
      using bk' by (simp add: best_known_def split: option.splits)
    have m1: "minQuality s < ?rq" "?rq \<le> 1"
      using mb mid hi by simp_all
    show ?thesis
      using n4 g2 lo m1 mid mb some mk' bf' bk'' bn
      unfolding refine_inv_def search_invariant_def s'
      by auto
  qed
qed

lemma bisect_inv_initial: "bisect_inv T (1, initial_state settings, w)"
  by (simp add: bisect_inv_def search_invariant_def initial_state_def best_fits_def
      best_known_def maxAttempts_def)

lemma bisect_states_inv:
  assumes "bisect_inv T (a, s, w)"
  shows "\<forall>x \<in> set (bisect_states jsPDF pages T a s w). bisect_inv T x"
  by (rule bisect_states_keeps [where P = "bisect_inv T", OF assms]) (rule bisect_body_inv)

lemma refine_states_inv:
  assumes "refine_inv T (n, s, w)"
  shows "\<forall>x \<in> set (refine_states jsPDF pages T n s w). refine_inv T x"
  by (rule refine_states_keeps [where P = "refine_inv T", OF assms]) (rule refine_body_inv)

lemma bisect_to_refine:
  assumes "bisect_inv T (maxAttempts + 1, s, w)"
  shows "refine_inv T (0, s, w)"
  using assms by (simp add: bisect_inv_def refine_inv_def maxAttempts_def)

subsection \<open>The phases of a whole search\<close>

lemma search_cases [case_names threw fit nofit]:
  fixes numToString jsPDF pages settings mb w
  defines "T \<equiv> targetBytes_of mb"
    and "pw \<equiv> probe_world numToString pages mb w"
    and "s0 \<equiv> initial_state settings"
  obtains e w2 where "generatePDFFromCanvases jsPDF pages 1 pw = Threw e w2"
      "bisect_phase numToString jsPDF pages settings mb w = []"
      "refine_phase numToString jsPDF pages settings mb w = []"
      "after_search numToString jsPDF pages settings mb w = []"
  | b w2 where "generatePDFFromCanvases jsPDF pages 1 pw = Ok b w2" "fits b T"
      "events w2 = events pw @ [Assemble 1 (Inr b)]"
      "jsPDF pages 1 (libState w) = (Inr b, libState w2)"
      "bisect_phase numToString jsPDF pages settings mb w = []"
      "refine_phase numToString jsPDF pages settings mb w = []"
      "after_search numToString jsPDF pages settings mb w
         = [(s0\<lparr>bestBlob := Some b, bestQuality := 1, chosenQuality := 1\<rparr>, w2)]"
  | b w2 where "generatePDFFromCanvases jsPDF pages 1 pw = Ok b w2" "\<not> fits b T"
      "jsPDF pages 1 (libState w) = (Inr b, libState w2)"
      "bisect_phase numToString jsPDF pages settings mb w = bisect_states jsPDF pages T 1 s0 w2"
      "refine_phase numToString jsPDF pages settings mb w
         = (case bisect_loop jsPDF pages T 1 s0 w2 of
              Threw e w3 \<Rightarrow> [] | Ok s1 w3 \<Rightarrow> refine_states jsPDF pages T 0 s1 w3)"
      "after_search numToString jsPDF pages settings mb w
         = (case search_below_ceiling jsPDF pages T s0 w2 of
              Threw e w3 \<Rightarrow> [] | Ok s w3 \<Rightarrow> [(s, w3)])"
      "ceiling_probe jsPDF pages T s0 (onProgress (progress_finding numToString (length pages) mb) w)
         = search_below_ceiling jsPDF pages T s0 w2"
proof (cases rule: generate_cases [of jsPDF pages 1 pw])
  case (threw e w2)
  then show ?thesis
    using that(1) [of e w2]
    by (simp add: bisect_phase_def refine_phase_def after_search_def ceiling_probe_def
        pw_def probe_world_def Let_def)
next
  case (ok b w2)
  show ?thesis
  proof (cases "fits b T")
    case True
    with ok show ?thesis
      using that(2) [of b w2]
      by (simp add: bisect_phase_def refine_phase_def after_search_def ceiling_probe_def
          pw_def probe_world_def Let_def T_def s0_def onProgress_def)
  next
    case False
    with ok show ?thesis
      using that(3) [of b w2]
      by (simp add: bisect_phase_def refine_phase_def after_search_def ceiling_probe_def
          pw_def probe_world_def Let_def T_def s0_def onProgress_def cong: outcome.case_cong)
  qed
qed

lemma search_invariant_chosen:
  "search_invariant T (s\<lparr>chosenQuality := q\<rparr>, w) = search_invariant T (s, w)"
  by (simp add: search_invariant_def best_fits_def best_known_def cong: option.case_cong)

lemma bisect_inv_search: "bisect_inv T x \<Longrightarrow> search_invariant T (snd x)"
  by (cases x) (simp add: bisect_inv_def)

lemma refine_inv_search: "refine_inv T x \<Longrightarrow> search_invariant T (snd x)"
  by (cases x) (simp add: refine_inv_def)

lemma bisect_states_nonempty: "bisect_states jsPDF pages T a s w \<noteq> []"
  using bisect_states_Cons [of jsPDF pages T a s w] by auto

lemma refine_states_nonempty: "refine_states jsPDF pages T n s w \<noteq> []"
  using refine_states_Cons [of jsPDF pages T n s w] by auto

lemma bisect_loop_inv:
  assumes "bisect_loop jsPDF pages T 1 (initial_state settings) w = Ok s1 w1"
  shows "bisect_inv T (maxAttempts + 1, s1, w1)"
proof -
  have "1 \<le> maxAttempts + 1" by simp
  from bisect_states_last [OF assms this]
  have "last (bisect_states jsPDF pages T 1 (initial_state settings) w) = (maxAttempts + 1, s1, w1)"
    by simp
  then have "(maxAttempts + 1, s1, w1) \<in> set (bisect_states jsPDF pages T 1 (initial_state settings) w)"
    using bisect_states_nonempty last_in_set by metis
  with bisect_states_inv [OF bisect_inv_initial] show ?thesis
    by blast
qed

lemma refine_loop_inv:
  assumes "refine_inv T (0, s1, w1)" "refine_loop jsPDF pages T 0 s1 w1 = Ok s2 w2"
  shows "\<exists>m. refine_inv T (m, s2, w2) \<and> \<not> refine_cond s2 m
    \<and> last (refine_states jsPDF pages T 0 s1 w1) = (m, s2, w2)
    \<and> length (refine_states jsPDF pages T 0 s1 w1) = m + 1"
proof -
  from refine_states_last [OF assms(2)] obtain m where
    m: "last (refine_states jsPDF pages T 0 s1 w1) = (m, s2, w2)" "\<not> refine_cond s2 m"
      "length (refine_states jsPDF pages T 0 s1 w1) = m + 1 - 0"
    by blast
  from m(1) have "(m, s2, w2) \<in> set (refine_states jsPDF pages T 0 s1 w1)"
    using refine_states_nonempty last_in_set by metis
  with refine_states_inv [OF assms(1), of jsPDF pages] have "refine_inv T (m, s2, w2)"
    by blast
  with m show ?thesis by auto
qed






lemma phases_invariant:
  "(\<forall>x \<in> set (bisect_phase numToString jsPDF pages settings mb w).
      bisect_inv (targetBytes_of mb) x)
   \<and> (\<forall>x \<in> set (refine_phase numToString jsPDF pages settings mb w).
      refine_inv (targetBytes_of mb) x)
   \<and> (\<forall>x \<in> set (after_search numToString jsPDF pages settings mb w).
      search_invariant (targetBytes_of mb) x)"
proof (cases rule: search_cases [of jsPDF pages numToString mb w settings])
  case (threw e w2)
  then show ?thesis by simp
next
  case (fit b w2)
  let ?T = "targetBytes_of mb"
  let ?s0 = "initial_state settings"
  have "search_invariant ?T
      (?s0\<lparr>bestBlob := Some b, bestQuality := 1, chosenQuality := 1\<rparr>, w2)"
    using fit(2,3)
    by (simp add: search_invariant_def initial_state_def best_fits_def best_known_def)
  with fit(5,6,7) show ?thesis by simp
next
  case (nofit b w2)
  let ?T = "targetBytes_of mb"
  let ?s0 = "initial_state settings"
  have bis: "\<forall>x \<in> set (bisect_states jsPDF pages ?T 1 ?s0 w2). bisect_inv ?T x"
    by (rule bisect_states_inv [OF bisect_inv_initial])
  have ref: "\<forall>x \<in> set (refine_states jsPDF pages ?T 0 s1 w3). refine_inv ?T x"
    if "bisect_loop jsPDF pages ?T 1 ?s0 w2 = Ok s1 w3" for s1 w3
    by (rule refine_states_inv [OF bisect_to_refine [OF bisect_loop_inv [OF that]]])
  have aft: "search_invariant ?T (s, w3)"
    if ok: "search_below_ceiling jsPDF pages ?T ?s0 w2 = Ok s w3" for s w3
  proof -
    from ok obtain s1 w1 s2 where
      b: "bisect_loop jsPDF pages ?T 1 ?s0 w2 = Ok s1 w1" and
      r: "refine_loop jsPDF pages ?T 0 s1 w1 = Ok s2 w3" and
      s: "s = s2\<lparr>chosenQuality := bestQuality s2\<rparr>"
      by (rule search_below_ceiling_Ok)
    from refine_loop_inv [OF bisect_to_refine [OF bisect_loop_inv [OF b]] r]
    obtain m where "refine_inv ?T (m, s2, w3)" by blast
    then show ?thesis
      unfolding s search_invariant_chosen by (simp add: refine_inv_def)
  qed
  have p2: "\<forall>x \<in> set (case bisect_loop jsPDF pages ?T 1 ?s0 w2 of
            Threw e w3 \<Rightarrow> [] | Ok s1 w3 \<Rightarrow> refine_states jsPDF pages ?T 0 s1 w3).
        refine_inv ?T x"
  proof (cases "bisect_loop jsPDF pages ?T 1 ?s0 w2")
    case (Threw e w3)
    then show ?thesis by simp
  next
    case (Ok s1 w3)
    with ref [OF Ok] show ?thesis by simp
  qed
  have p3: "\<forall>x \<in> set (case search_below_ceiling jsPDF pages ?T ?s0 w2 of
            Threw e w3 \<Rightarrow> [] | Ok s w3 \<Rightarrow> [(s, w3)]). search_invariant ?T x"
  proof (cases "search_below_ceiling jsPDF pages ?T ?s0 w2")
    case (Threw e w3)
    then show ?thesis by simp
  next
    case (Ok s w3)
    with aft [OF Ok] show ?thesis by simp
  qed
  show ?thesis
    unfolding nofit(4,5,6) using bis p2 p3 by blast
qed

lemma after_search_invariant:
  assumes "ceiling_probe jsPDF pages (targetBytes_of mb) (initial_state settings)
       (onProgress (progress_finding numToString (length pages) mb) w) = Ok s w1"
  shows "search_invariant (targetBytes_of mb) (s, w1)"
proof -
  from assms have "after_search numToString jsPDF pages settings mb w = [(s, w1)]"
    by (simp add: after_search_def)
  with phases_invariant [of numToString jsPDF pages settings mb w] show ?thesis
    by simp
qed

subsection \<open>The shape of the trace\<close>

lemma phase_of_simps [simp]:
  "phase_of (progress_finding numToString n mb) = None"
  "phase_of (progress_probe n) = Some Probing"
  "phase_of (progress_attempt n att tq) = Some Bisecting"
  "phase_of (progress_refine n rq) = Some Refining"
  "phase_of (progress_fallback n) = Some Fallback"
  "phase_of (progress_complete n) = None"
  by (simp_all add: phase_of_def progress_finding_def progress_probe_def progress_attempt_def
      progress_refine_def progress_fallback_def progress_complete_def)

lemma report_ok_simps [simp]:
  "report_ok (progress_finding numToString n mb)"
  "report_ok (progress_probe n)"
  "report_ok (progress_attempt n att tq)"
  "report_ok (progress_refine n rq)"
  "report_ok (progress_fallback n)"
  "report_ok (progress_complete n)"
  unfolding report_ok_def phase_of_simps
  by (simp_all add: progress_finding_def progress_probe_def progress_attempt_def
      progress_refine_def progress_fallback_def progress_complete_def)



lemma reports_append [simp]: "reports (xs @ ys) = reports xs @ reports ys"
  by (induction xs rule: reports.induct) simp_all







lemma fallback_trace:
  "\<exists>trF. events (out_world (fallback jsPDF pages s w)) = events w @ trF
     \<and> block Fallback trF \<and> assembler_calls trF \<le> 1"
proof (cases rule: fallback_cases [of s jsPDF pages w])
  case (kept b)
  then have "events (out_world (fallback jsPDF pages s w)) = events w @ []
      \<and> block Fallback [] \<and> assembler_calls [] \<le> 1"
    by simp
  then show ?thesis by blast
next
  case (threw e w')
  then show ?thesis by simp
next
  case (floor b w')
  then show ?thesis by simp
qed



subsection \<open>Runs that cannot throw, runs in which nothing fits\<close>

lemma generate_Ok:
  assumes "never_fails jsPDF pages" "pages \<noteq> []"
  shows "\<exists>b w'. generatePDFFromCanvases jsPDF pages q w = Ok b w'"
proof -
  from assms(1) obtain b o2 where "jsPDF pages q (libState w) = (Inr b, o2)"
    unfolding never_fails_def by blast
  with assms(2) show ?thesis
    by (cases pages) (simp_all add: generatePDFFromCanvases_def)
qed

lemma bisect_body_Ok:
  assumes "never_fails jsPDF pages" "pages \<noteq> []"
  shows "\<exists>s' w'. bisect_body jsPDF pages T att s w = Ok s' w'"
proof -
  from generate_Ok [OF assms] obtain b w' where
    "generatePDFFromCanvases jsPDF pages ((minQuality s + maxQuality s) / 2)
       (onProgress (progress_attempt (length pages) att ((minQuality s + maxQuality s) / 2)) w)
     = Ok b w'"
    by blast
  then show ?thesis by (simp add: bisect_body_def Let_def)
qed

lemma refine_body_Ok:
  assumes "never_fails jsPDF pages" "pages \<noteq> []"
  shows "\<exists>s' w'. refine_body jsPDF pages T s w = Ok s' w'"
proof -
  from generate_Ok [OF assms] obtain b w' where
    "generatePDFFromCanvases jsPDF pages ((bestQuality s + maxQuality s) / 2)
       (onProgress (progress_refine (length pages) ((bestQuality s + maxQuality s) / 2)) w)
     = Ok b w'"
    by blast
  then show ?thesis by (simp add: refine_body_def Let_def)
qed

lemma bisect_loop_Ok:
  assumes "never_fails jsPDF pages" "pages \<noteq> []"
  shows "\<exists>s' w'. bisect_loop jsPDF pages T att s w = Ok s' w'"
  using assms
proof (induction jsPDF pages T att s w rule: bisect_loop.induct)
  case (1 jsPDF pages T att s w)
  show ?case
  proof (cases "att \<le> maxAttempts")
    case False
    then show ?thesis by (simp add: bisect_loop.simps [of jsPDF pages T att s w])
  next
    case True
    from bisect_body_Ok [OF "1.prems"] obtain s1 w1 where
      body: "bisect_body jsPDF pages T att s w = Ok s1 w1" by blast
    from "1.IH" [OF True body "1.prems"] True body show ?thesis
      by (simp add: bisect_loop.simps [of jsPDF pages T att s w])
  qed
qed

lemma refine_loop_Ok:
  assumes "never_fails jsPDF pages" "pages \<noteq> []"
  shows "\<exists>s' w'. refine_loop jsPDF pages T n s w = Ok s' w'"
  using assms
proof (induction jsPDF pages T n s w rule: refine_loop.induct)
  case (1 jsPDF pages T n s w)
  show ?case
  proof (cases "refine_cond s n")
    case False
    then show ?thesis by (simp add: refine_loop.simps [of jsPDF pages T n s w])
  next
    case True
    from refine_body_Ok [OF "1.prems"] obtain s1 w1 where
      body: "refine_body jsPDF pages T s w = Ok s1 w1" by blast
    from "1.IH" [OF True body "1.prems"] True body show ?thesis
      by (simp add: refine_loop.simps [of jsPDF pages T n s w])
  qed
qed

lemma compressPDF_Ok:
  assumes nf: "never_fails jsPDF pages" and ne: "pages \<noteq> []"
    and target: "target_of settings = Some mb"
  shows "\<exists>r w'. compressPDF numToString jsPDF pages origSize settings w = Ok r w'"
proof -
  let ?T = "targetBytes_of mb"
  let ?w1 = "onProgress (progress_finding numToString (length pages) mb) w"
  let ?s0 = "initial_state settings"
  have below: "\<exists>s' w'. search_below_ceiling jsPDF pages ?T ?s0 w2 = Ok s' w'" for w2
  proof -
    from bisect_loop_Ok [OF nf ne] obtain s1 w1 where
      b: "bisect_loop jsPDF pages ?T 1 ?s0 w2 = Ok s1 w1" by blast
    from refine_loop_Ok [OF nf ne] obtain s2 w3 where
      r: "refine_loop jsPDF pages ?T 0 s1 w1 = Ok s2 w3" by blast
    from b r show ?thesis by (simp add: search_below_ceiling_def)
  qed
  have "\<exists>s w2. ceiling_probe jsPDF pages ?T ?s0 ?w1 = Ok s w2"
  proof -
    from generate_Ok [OF nf ne] obtain b w' where
      "generatePDFFromCanvases jsPDF pages 1 (onProgress (progress_probe (length pages)) ?w1)
         = Ok b w'" by blast
    with below [of w'] show ?thesis
      by (simp add: ceiling_probe_def Let_def)
  qed
  then obtain s w2 where cp: "ceiling_probe jsPDF pages ?T ?s0 ?w1 = Ok s w2" by blast
  have "\<exists>x w3. fallback jsPDF pages s w2 = Ok x w3"
  proof (cases rule: fallback_cases [of s jsPDF pages w2])
    case (kept b)
    then show ?thesis by blast
  next
    case (threw e w3)
    from generate_Ok [OF nf ne] obtain b w' where
      "generatePDFFromCanvases jsPDF pages (1 / 10)
         (onProgress (progress_fallback (length pages)) w2) = Ok b w'" by blast
    with threw(1,2) show ?thesis
      by (simp add: fallback_def Let_def)
  next
    case (floor b w3)
    then show ?thesis by blast
  qed
  then obtain x w3 where fb: "fallback jsPDF pages s w2 = Ok x w3" by blast
  obtain bl fq where x: "x = (bl, fq)" by (cases x)
  from cp fb x target show ?thesis
    by (simp add: compressPDF_def target_mode_def Let_def)
qed

lemma bisect_loop_calls_exact:
  assumes "bisect_loop jsPDF pages T att s w = Ok s' w'"
  shows "assembler_calls (events w') = assembler_calls (events w) + (maxAttempts + 1 - att)"
  using assms
proof (induction jsPDF pages T att s w rule: bisect_loop.induct)
  case (1 jsPDF pages T att s w)
  show ?case
  proof (cases "att \<le> maxAttempts")
    case False
    with "1.prems" show ?thesis by (simp add: bisect_loop.simps [of jsPDF pages T att s w])
  next
    case True
    show ?thesis
    proof (cases "bisect_body jsPDF pages T att s w")
      case (Threw e w1)
      with True "1.prems" show ?thesis by (simp add: bisect_loop.simps [of jsPDF pages T att s w])
    next
      case (Ok s1 w1)
      with True "1.prems" have loop: "bisect_loop jsPDF pages T (att + 1) s1 w1 = Ok s' w'"
        by (simp add: bisect_loop.simps [of jsPDF pages T att s w])
      from bisect_body_calls [of jsPDF pages T att s w] Ok
      have "assembler_calls (events w1) = assembler_calls (events w) + 1" by simp
      with "1.IH" [OF True Ok loop] True show ?thesis by simp
    qed
  qed
qed

lemma fit_above_floor_append:
  "fit_above_floor T evs \<Longrightarrow> fit_above_floor T (evs @ evs2)"
  by (auto simp: fit_above_floor_def list_ex_iff)

lemma fit_above_floor_member:
  assumes "Assemble q (Inr b) \<in> set evs" "1 / 10 < q" "fits b T"
  shows "fit_above_floor T evs"
  using assms unfolding fit_above_floor_def list_ex_iff
  by (intro bexI [of _ "Assemble q (Inr b)"]) simp_all

section \<open>PDF compressor: the claims\<close>

text \<open>
  Claim C1 (fit invariant). In target-size mode, whatever the pages, the target and the
  assembler, a run that returns a result whose \<open>finalQuality\<close> is strictly above 0.1
  returns a blob of at most \<open>targetBytes = targetSizeMB * 1024 * 1024\<close> bytes (and reports
  that size as \<open>compressedSize\<close>).
\<close>

theorem fit_invariant:
  assumes "target_of settings = Some mb"
    and "compressPDF numToString jsPDF pages origSize settings w = Ok r w'"
    and "finalQuality r = Some fq"
    and "1 / 10 < fq"
  shows "of_nat (blob_size (blob r)) \<le> targetBytes_of mb
         \<and> of_nat (compressedSize r) \<le> targetBytes_of mb"
proof -
  let ?T = "targetBytes_of mb"
  from assms(1,2) obtain s w1 w2 fq' where
    probe: "ceiling_probe jsPDF pages ?T (initial_state settings)
       (onProgress (progress_finding numToString (length pages) mb) w) = Ok s w1" and
    fb: "fallback jsPDF pages s w1 = Ok (blob r, fq') w2" and
    fq': "finalQuality r = Some fq'" and
    cs: "compressedSize r = blob_size (blob r)"
    by (rule compressPDF_target_Ok)
  have "best_fits ?T (initial_state settings)"
    by (simp add: best_fits_def initial_state_def)
  then have bf: "best_fits ?T s"
    using probe by (rule ceiling_probe_best_fits)
  from fq' assms(3) have eq: "fq' = fq" by simp
  have "fits (blob r) ?T"
  proof (cases rule: fallback_cases [of s jsPDF pages w1])
    case (kept b)
    with fb bf show ?thesis by (simp add: best_fits_def)
  next
    case (threw e w3)
    with fb show ?thesis by simp
  next
    case (floor b w3)
    with fb eq assms(4) show ?thesis by simp
  qed
  then show ?thesis by (simp add: fits_def cs)
qed

theorem fit_invariant_witness:
  "target_of (demo_settings 5) = Some (5 / 1048576)
   \<and> demo_run 5 = Ok (the (result_of (demo_run 5))) (out_world (demo_run 5))
   \<and> finalQuality (the (result_of (demo_run 5))) = Some (767 / 1280)
   \<and> (1 / 10 :: rat) < 767 / 1280
   \<and> of_nat (blob_size (blob (the (result_of (demo_run 5))))) \<le> targetBytes_of (5 / 1048576)"
proof -
  have h1: "target_of (demo_settings 5) = Some (5 / 1048576)"
    by code_simp
  have h2: "demo_run 5 = Ok (the (result_of (demo_run 5))) (out_world (demo_run 5))"
    by code_simp
  have h3: "finalQuality (the (result_of (demo_run 5))) = Some (767 / 1280)"
    by code_simp
  have h4: "(1 / 10 :: rat) < 767 / 1280"
    by simp
  have run: "compressPDF (\<lambda>x. ''?'') demo_jsPDF demo_pages 1000 (demo_settings 5) (init_world ())
      = Ok (the (result_of (demo_run 5))) (out_world (demo_run 5))"
    using h2 by (subst (asm) demo_run_def)
  have c: "of_nat (blob_size (blob (the (result_of (demo_run 5)))))
      \<le> targetBytes_of (5 / 1048576)"
    using fit_invariant [OF h1 run h3 h4] by (rule conjunct1)
  show ?thesis
    by (intro conjI h1 h2 h3 h4 c)
qed






text \<open>
  Claim C4 (ceiling short-circuit). In target-size mode, when the assembler's output for
  the pages at quality 1.0 has at most \<open>targetBytes\<close> bytes, the run returns exactly that
  blob with \<open>finalQuality = 1.0\<close>, and its trace holds one assembler call: the two
  progress reports, the probe, and the completion report.
\<close>

theorem ceiling_short_circuit:
  assumes "target_of settings = Some mb"
    and "pages \<noteq> []"
    and "jsPDF pages 1 o0 = (Inr b, o1)"
    and "of_nat (blob_size b) \<le> targetBytes_of mb"
  shows "compressPDF numToString jsPDF pages origSize settings (init_world o0)
      = Ok \<lparr>blob = b, originalSize = origSize, compressedSize = blob_size b,
             pageCount = length pages, finalQuality = Some 1\<rparr>
           \<lparr>events = [Progress (progress_finding numToString (length pages) mb),
                      Progress (progress_probe (length pages)),
                      Assemble 1 (Inr b),
                      Progress (progress_complete (length pages))],
            libState = o1\<rparr>
    \<and> assembler_calls (events (out_world
          (compressPDF numToString jsPDF pages origSize settings (init_world o0)))) = 1"
proof -
  obtain p ps where pages: "pages = p # ps"
    using assms(2) by (cases pages) auto
  have run: "compressPDF numToString jsPDF pages origSize settings (init_world o0)
      = Ok \<lparr>blob = b, originalSize = origSize, compressedSize = blob_size b,
             pageCount = length pages, finalQuality = Some 1\<rparr>
           \<lparr>events = [Progress (progress_finding numToString (length pages) mb),
                      Progress (progress_probe (length pages)),
                      Assemble 1 (Inr b),
                      Progress (progress_complete (length pages))],
            libState = o1\<rparr>"
    using assms(1,3,4) unfolding pages
    by (simp add: compressPDF_def target_mode_def ceiling_probe_def fallback_def
        generatePDFFromCanvases_def onProgress_def init_world_def fits_def Let_def)
  show ?thesis
    unfolding run by simp
qed

theorem ceiling_short_circuit_witness:
  "target_of (demo_settings 20) = Some (20 / 1048576)
   \<and> demo_pages \<noteq> []
   \<and> demo_jsPDF demo_pages 1 () = (Inr (replicate 10 0), ())
   \<and> of_nat (blob_size (replicate 10 0)) \<le> targetBytes_of (20 / 1048576)
   \<and> result_of (demo_run 20)
       = Some \<lparr>blob = replicate 10 0, originalSize = 1000, compressedSize = 10,
                pageCount = 1, finalQuality = Some 1\<rparr>
   \<and> assembler_calls (events (out_world (demo_run 20))) = 1"
proof -
  have h1: "target_of (demo_settings 20) = Some (20 / 1048576)"
    by code_simp
  have h2: "demo_pages \<noteq> []"
    by (simp add: demo_pages_def)
  have h3: "demo_jsPDF demo_pages 1 () = (Inr (replicate 10 0), ())"
    by (simp add: demo_jsPDF_def)
  have h4: "of_nat (blob_size (replicate 10 0)) \<le> targetBytes_of (20 / 1048576)"
    by (simp add: blob_size_def targetBytes_of_def)
  have c: "demo_run 20
      = Ok \<lparr>blob = replicate 10 0, originalSize = 1000, compressedSize = blob_size (replicate 10 0),
             pageCount = length demo_pages, finalQuality = Some 1\<rparr>
           \<lparr>events = [Progress (progress_finding (\<lambda>x. ''?'') (length demo_pages) (20 / 1048576)),
                      Progress (progress_probe (length demo_pages)),
                      Assemble 1 (Inr (replicate 10 0)),
                      Progress (progress_complete (length demo_pages))],
            libState = ()\<rparr>
    \<and> assembler_calls (events (out_world (demo_run 20))) = 1"
    unfolding demo_run_def
    by (rule ceiling_short_circuit [where jsPDF = demo_jsPDF and pages = demo_pages
          and settings = "demo_settings 20" and ?o0.0 = "()" and ?o1.0 = "()", OF h1 h2 h3 h4])
  then have c1: "result_of (demo_run 20)
       = Some \<lparr>blob = replicate 10 0, originalSize = 1000, compressedSize = 10,
                pageCount = 1, finalQuality = Some 1\<rparr>"
    by (simp add: blob_size_def demo_pages_def)
  from c have c2: "assembler_calls (events (out_world (demo_run 20))) = 1"
    by (rule conjunct2)
  show ?thesis
    by (intro conjI h1 h2 h3 h4 c1 c2)
qed

text \<open>
  Claim C5 (best-effort fallback), as stated, fails in one point: the blob of the
  fallback need not exceed the target. The bisection never tries the floor itself (its
  lowest trial is at \<open>0.1 + 0.9 / 64\<close>), so an output that fits only at 0.1 is found by
  no trial, and the fallback then returns a blob that fits, with \<open>finalQuality = 0.1\<close>.
  With the assembler that gives 1 byte at 0.1 and 9 bytes above, and a target of 5 bytes:
  no trial above the floor fits, and the run returns the 1-byte blob.
\<close>

theorem best_effort_fallback_counterexample:
  "\<not> fit_above_floor (targetBytes_of (5 / 1048576)) (events (out_world (step_run 5)))
   \<and> finalQuality (the (result_of (step_run 5))) = Some (1 / 10)
   \<and> blob (the (result_of (step_run 5))) = [0]
   \<and> of_nat (blob_size (blob (the (result_of (step_run 5))))) \<le> targetBytes_of (5 / 1048576)"
  by code_simp

text \<open>
  Claim C5, amended. In target-size mode: (1) a run on a non-empty page list with an
  assembler that never fails returns a result (a result always holds a blob), whatever
  the target: nothing is thrown because the target is out of reach; (2) in a run that
  returns and in which no assembler call above quality 0.1 (the probe, a bisection or a
  refinement trial) came back with a blob that fits, the search assembles once more at
  quality 0.1 (the 8th and last call) and returns that blob with \<open>finalQuality = 0.1\<close>,
  without comparing it with the target.
\<close>

theorem best_effort_fallback:
  assumes "target_of settings = Some mb"
  shows "(pages \<noteq> [] \<and> never_fails jsPDF pages \<longrightarrow>
           (\<exists>r w'. compressPDF numToString jsPDF pages origSize settings w = Ok r w'))
    \<and> (\<forall>r w'. compressPDF numToString jsPDF pages origSize settings (init_world o0) = Ok r w'
              \<and> \<not> fit_above_floor (targetBytes_of mb) (events w')
          \<longrightarrow> finalQuality r = Some (1 / 10)
              \<and> compressedSize r = blob_size (blob r)
              \<and> assembler_calls (events w') = 8
              \<and> (\<exists>evs. events w' = evs @
                    [Progress (progress_fallback (length pages)),
                     Assemble (1 / 10) (Inr (blob r)),
                     Progress (progress_complete (length pages))]))"
proof -
  let ?T = "targetBytes_of mb"
  let ?w0 = "init_world o0"
  let ?w1 = "onProgress (progress_finding numToString (length pages) mb) ?w0"
  let ?s0 = "initial_state settings"
  have total: "\<exists>r w'. compressPDF numToString jsPDF pages origSize settings w = Ok r w'"
    if "pages \<noteq> []" "never_fails jsPDF pages"
    using compressPDF_Ok [OF that(2,1) assms] .
  have floor: "finalQuality r = Some (1 / 10)
      \<and> compressedSize r = blob_size (blob r)
      \<and> assembler_calls (events w') = 8
      \<and> (\<exists>evs. events w' = evs @
            [Progress (progress_fallback (length pages)),
             Assemble (1 / 10) (Inr (blob r)),
             Progress (progress_complete (length pages))])"
    if run: "compressPDF numToString jsPDF pages origSize settings ?w0 = Ok r w'"
      and nofit: "\<not> fit_above_floor ?T (events w')" for r w'
  proof -
    from assms run obtain s w1 w2 fq where
      probe: "ceiling_probe jsPDF pages ?T ?s0 ?w1 = Ok s w1" and
      fb: "fallback jsPDF pages s w1 = Ok (blob r, fq) w2" and
      fq: "finalQuality r = Some fq" and
      w': "w' = onProgress (progress_complete (length pages)) w2" and
      cs: "compressedSize r = blob_size (blob r)"
      by (rule compressPDF_target_Ok)
    have inv: "search_invariant ?T (s, w1)"
      using probe by (rule after_search_invariant)
    from fallback_trace [of jsPDF pages s w1] fb obtain trF where
      trF: "events w2 = events w1 @ trF" by auto
    have ev': "events w' = events w1 @ trF @ [Progress (progress_complete (length pages))]"
      using w' trF by (simp add: onProgress_def)
    have none: "bestBlob s = None"
    proof (rule ccontr)
      assume "bestBlob s \<noteq> None"
      then obtain b where b: "bestBlob s = Some b" by blast
      with inv have "Assemble (bestQuality s) (Inr b) \<in> set (events w1)"
        "1 / 10 < bestQuality s" "fits b ?T"
        by (simp_all add: search_invariant_def best_known_def best_fits_def)
      then have "fit_above_floor ?T (events w1)"
        by (rule fit_above_floor_member)
      then have "fit_above_floor ?T (events w')"
        unfolding ev' by (rule fit_above_floor_append)
      with nofit show False by simp
    qed
    have c1: "assembler_calls (events w1) = 7"
    proof (cases rule: ceiling_probe_cases [of jsPDF pages ?T ?s0 ?w1])
      case (threw e w2)
      with probe show ?thesis by simp
    next
      case (fit b w2)
      with probe none show ?thesis by auto
    next
      case (nofit b w2)
      from probe nofit(1) have "search_below_ceiling jsPDF pages ?T ?s0 w2 = Ok s w1"
        by simp
      then obtain s1 w3 s2 where
        b: "bisect_loop jsPDF pages ?T 1 ?s0 w2 = Ok s1 w3" and
        r: "refine_loop jsPDF pages ?T 0 s1 w3 = Ok s2 w1" and
        s: "s = s2\<lparr>chosenQuality := bestQuality s2\<rparr>"
        by (rule search_below_ceiling_Ok)
      from none s have "bestBlob s2 = None" by simp
      from refine_loop_unentered [OF r this] have w13: "w1 = w3" by simp
      have "assembler_calls (events w2) = 1"
        using nofit(5) by (simp add: onProgress_def init_world_def)
      with bisect_loop_calls_exact [OF b] show ?thesis
        unfolding w13 by (simp add: maxAttempts_def)
    qed
    show ?thesis
    proof (cases rule: fallback_cases [of s jsPDF pages w1])
      case (kept b)
      with none show ?thesis by simp
    next
      case (threw e w3)
      with fb show ?thesis by simp
    next
      case (floor b w3)
      with fb have eq: "blob r = b" "fq = 1 / 10" "w2 = w3" by simp_all
      have "events w' = events w1 @
            [Progress (progress_fallback (length pages)),
             Assemble (1 / 10) (Inr (blob r)),
             Progress (progress_complete (length pages))]"
        using w' floor(3) eq by (simp add: onProgress_def)
      then have "assembler_calls (events w') = 8
          \<and> (\<exists>evs. events w' = evs @
            [Progress (progress_fallback (length pages)),
             Assemble (1 / 10) (Inr (blob r)),
             Progress (progress_complete (length pages))])"
        using c1 by auto
      with fq eq cs show ?thesis by simp
    qed
  qed
  from total floor show ?thesis by blast
qed

theorem best_effort_fallback_witness:
  "target_of (demo_settings (1 / 2)) = Some (1 / 2 / 1048576)
   \<and> demo_pages \<noteq> [] \<and> never_fails demo_jsPDF demo_pages
   \<and> demo_run (1 / 2) = Ok (the (result_of (demo_run (1 / 2)))) (out_world (demo_run (1 / 2)))
   \<and> \<not> fit_above_floor (targetBytes_of (1 / 2 / 1048576)) (events (out_world (demo_run (1 / 2))))
   \<and> finalQuality (the (result_of (demo_run (1 / 2)))) = Some (1 / 10)
   \<and> assembler_calls (events (out_world (demo_run (1 / 2)))) = 8"
proof -
  have h1: "target_of (demo_settings (1 / 2)) = Some (1 / 2 / 1048576)"
    by code_simp
  have h2: "demo_pages \<noteq> []"
    by (simp add: demo_pages_def)
  have h3: "never_fails demo_jsPDF demo_pages"
    by (simp add: never_fails_def demo_jsPDF_def)
  have h4: "demo_run (1 / 2) = Ok (the (result_of (demo_run (1 / 2)))) (out_world (demo_run (1 / 2)))"
    by code_simp
  have h5: "\<not> fit_above_floor (targetBytes_of (1 / 2 / 1048576))
      (events (out_world (demo_run (1 / 2))))"
    by code_simp
  have run: "compressPDF (\<lambda>x. ''?'') demo_jsPDF demo_pages 1000 (demo_settings (1 / 2))
      (init_world ()) = Ok (the (result_of (demo_run (1 / 2)))) (out_world (demo_run (1 / 2)))"
    using h4 by (subst (asm) demo_run_def)
  note c = best_effort_fallback [OF h1, of demo_pages demo_jsPDF "\<lambda>x. ''?''" 1000 "init_world ()" "()"]
  from c run h5 have c1: "finalQuality (the (result_of (demo_run (1 / 2)))) = Some (1 / 10)"
    by blast
  from c run h5 have c2: "assembler_calls (events (out_world (demo_run (1 / 2)))) = 8"
    by blast
  show ?thesis
    by (intro conjI h1 h2 h3 h4 h5 c1 c2)
qed

text \<open>
  Claim C6 (bounded call count). In target-size mode every run, whether it returns or an
  assembler call throws, makes at least 1 and at most 11 calls of
  \<open>generatePDFFromCanvases\<close>; the bound counts the fallback call too, which only happens
  in runs whose refinement loop did not run. When the quality-1.0 output fits, the run
  makes exactly 1 call.
\<close>

theorem bounded_call_count:
  assumes "target_of settings = Some mb"
  shows "1 \<le> assembler_calls (events (out_world
            (compressPDF numToString jsPDF pages origSize settings (init_world o0))))
    \<and> assembler_calls (events (out_world
            (compressPDF numToString jsPDF pages origSize settings (init_world o0)))) \<le> 11
    \<and> (pages \<noteq> [] \<and> jsPDF pages 1 o0 = (Inr b, o1)
          \<and> of_nat (blob_size b) \<le> targetBytes_of mb
        \<longrightarrow> assembler_calls (events (out_world
            (compressPDF numToString jsPDF pages origSize settings (init_world o0)))) = 1)"
proof -
  have "assembler_calls (events (init_world o0)) = 0"
    by (simp add: init_world_def)
  with target_mode_calls [of numToString jsPDF pages settings mb "init_world o0"]
    compressPDF_target_calls [OF assms, of numToString jsPDF pages origSize "init_world o0"]
  have bounds: "1 \<le> assembler_calls (events (out_world
            (compressPDF numToString jsPDF pages origSize settings (init_world o0))))"
    "assembler_calls (events (out_world
            (compressPDF numToString jsPDF pages origSize settings (init_world o0)))) \<le> 11"
    by simp_all
  have "assembler_calls (events (out_world
            (compressPDF numToString jsPDF pages origSize settings (init_world o0)))) = 1"
    if ne: "pages \<noteq> []" and probe: "jsPDF pages 1 o0 = (Inr b, o1)"
      and small: "of_nat (blob_size b) \<le> targetBytes_of mb"
  proof -
    obtain p ps where pages: "pages = p # ps"
      using ne by (cases pages) auto
    show ?thesis
      using assms probe small unfolding pages
      by (simp add: compressPDF_def target_mode_def ceiling_probe_def fallback_def
          generatePDFFromCanvases_def onProgress_def init_world_def fits_def Let_def)
  qed
  with bounds show ?thesis by blast
qed

theorem bounded_call_count_witness:
  "target_of (demo_settings 20) = Some (20 / 1048576)
   \<and> demo_pages \<noteq> []
   \<and> demo_jsPDF demo_pages 1 () = (Inr (replicate 10 0), ())
   \<and> of_nat (blob_size (replicate 10 0)) \<le> targetBytes_of (20 / 1048576)
   \<and> assembler_calls (events (out_world (demo_run 20))) = 1
   \<and> target_of (demo_settings 5) = Some (5 / 1048576)
   \<and> 1 \<le> assembler_calls (events (out_world (demo_run 5)))
   \<and> assembler_calls (events (out_world (demo_run 5))) \<le> 11"
proof -
  have h1: "target_of (demo_settings 20) = Some (20 / 1048576)"
    by code_simp
  have h2: "demo_pages \<noteq> []"
    by (simp add: demo_pages_def)
  have h3: "demo_jsPDF demo_pages 1 () = (Inr (replicate 10 0), ())"
    by (simp add: demo_jsPDF_def)
  have h4: "of_nat (blob_size (replicate 10 0)) \<le> targetBytes_of (20 / 1048576)"
    by (simp add: blob_size_def targetBytes_of_def)
  have h5: "target_of (demo_settings 5) = Some (5 / 1048576)"
    by code_simp
  have c20: "assembler_calls (events (out_world (demo_run 20))) = 1"
    using bounded_call_count [where jsPDF = demo_jsPDF and pages = demo_pages
          and settings = "demo_settings 20" and ?o0.0 = "()" and ?o1.0 = "()"
          and b = "replicate 10 0" and numToString = "\<lambda>x. ''?''" and origSize = 1000, OF h1]
      h2 h3 h4
    unfolding demo_run_def by blast
  have c5: "1 \<le> assembler_calls (events (out_world (demo_run 5)))
      \<and> assembler_calls (events (out_world (demo_run 5))) \<le> 11"
    using bounded_call_count [where jsPDF = demo_jsPDF and pages = demo_pages
          and settings = "demo_settings 5" and ?o0.0 = "()"
          and numToString = "\<lambda>x. ''?''" and origSize = 1000, OF h5]
    unfolding demo_run_def by blast
  show ?thesis
    by (intro conjI h1 h2 h3 h4 h5 c20 conjunct1 [OF c5] conjunct2 [OF c5])
qed

text \<open>
  Claim C7 (search-state invariant), as the specification states it, fails: the
  refinement loop raises \<open>bestQuality\<close> and leaves \<open>minQuality\<close> alone (as does the
  assignment after a probe that fits), so \<open>minQuality\<close> stops being the quality of the
  best candidate. In the sample run with a target of 5 bytes, at the head of the second
  refinement pass the best blob was assembled at \<open>767 / 1280\<close> while \<open>minQuality\<close> is
  still \<open>379 / 640\<close>.
\<close>

theorem search_state_invariant_counterexample:
  "bestBlob (fst (demo_points 5 ! 9)) = Some (replicate 5 0)
   \<and> bestQuality (fst (demo_points 5 ! 9)) = 767 / 1280
   \<and> minQuality (fst (demo_points 5 ! 9)) = 379 / 640
   \<and> \<not> spec_invariant (targetBytes_of (5 / 1048576)) (demo_points 5 ! 9)"
  by code_simp

text \<open>
  Claim C7, amended. At every point of every target-size search (before the probe, at
  each loop head, after the search) \<open>0.1 \<le> minQuality \<le> bestQuality \<le> maxQuality \<le> 1\<close> and
  \<open>minQuality < maxQuality\<close>; the best blob, when there is one, has at most \<open>targetBytes\<close>
  bytes and was assembled at \<open>bestQuality\<close>, and \<open>bestQuality\<close> is the floor 0.1 exactly
  when there is none; \<open>maxQuality\<close> is the ceiling 1.0 or a quality at which a blob above the target was
  assembled. At the loop heads of the bisection, moreover, \<open>minQuality = bestQuality\<close>
  (0.1 while there is no best blob).
\<close>

theorem search_state_invariant:
  "(\<forall>x \<in> set (search_points numToString jsPDF pages settings mb w).
      search_invariant (targetBytes_of mb) x)
   \<and> (\<forall>x \<in> set (bisect_phase numToString jsPDF pages settings mb w).
        minQuality (vars x) = bestQuality (vars x)
        \<and> (bestBlob (vars x) = None \<longrightarrow> minQuality (vars x) = 1 / 10))"
proof -
  let ?T = "targetBytes_of mb"
  let ?B = "bisect_phase numToString jsPDF pages settings mb w"
  let ?R = "refine_phase numToString jsPDF pages settings mb w"
  let ?A = "after_search numToString jsPDF pages settings mb w"
  note inv = phases_invariant [of numToString jsPDF pages settings mb w]
  have first: "search_invariant ?T
      (initial_state settings, probe_world numToString pages mb w)"
    using bisect_inv_initial [of ?T settings "probe_world numToString pages mb w"]
    by (simp add: bisect_inv_def)
  have pB: "\<forall>x \<in> set (map snd ?B). search_invariant ?T x"
  proof
    fix x
    assume "x \<in> set (map snd ?B)"
    then obtain y where y: "y \<in> set ?B" "x = snd y" by auto
    from y(1) inv have "bisect_inv ?T y" by blast
    then show "search_invariant ?T x"
      unfolding y(2) by (rule bisect_inv_search)
  qed
  have pR: "\<forall>x \<in> set (map snd ?R). search_invariant ?T x"
  proof
    fix x
    assume "x \<in> set (map snd ?R)"
    then obtain y where y: "y \<in> set ?R" "x = snd y" by auto
    from y(1) inv have "refine_inv ?T y" by blast
    then show "search_invariant ?T x"
      unfolding y(2) by (rule refine_inv_search)
  qed
  have pA: "\<forall>x \<in> set ?A. search_invariant ?T x"
    using inv by blast
  have all: "\<forall>x \<in> set (search_points numToString jsPDF pages settings mb w).
      search_invariant ?T x"
    using first pB pR pA unfolding search_points_def by auto
  have bis: "\<forall>x \<in> set ?B. minQuality (vars x) = bestQuality (vars x)
        \<and> (bestBlob (vars x) = None \<longrightarrow> minQuality (vars x) = 1 / 10)"
  proof
    fix x
    assume "x \<in> set ?B"
    with inv have "bisect_inv ?T x" by blast
    then show "minQuality (vars x) = bestQuality (vars x)
        \<and> (bestBlob (vars x) = None \<longrightarrow> minQuality (vars x) = 1 / 10)"
      by (cases x) (simp add: bisect_inv_def vars_def)
  qed
  from all bis show ?thesis by blast
qed

theorem search_state_invariant_witness:
  "length (demo_points 5) = 12
   \<and> length (demo_bisect 5) = 7
   \<and> list_all (search_invariant (targetBytes_of (5 / 1048576))) (demo_points 5)
   \<and> list_all (\<lambda>x. minQuality (vars x) = bestQuality (vars x)) (demo_bisect 5)"
proof -
  have n: "length (demo_points 5) = 12" "length (demo_bisect 5) = 7"
    by code_simp+
  from search_state_invariant [of "\<lambda>x. ''?''" demo_jsPDF demo_pages "demo_settings 5"
      "5 / 1048576" "init_world ()"]
  have "list_all (search_invariant (targetBytes_of (5 / 1048576))) (demo_points 5)"
    and "list_all (\<lambda>x. minQuality (vars x) = bestQuality (vars x)) (demo_bisect 5)"
    unfolding demo_points_def demo_bisect_def list_all_iff by blast+
  with n show ?thesis by blast
qed




section \<open>JSON formatter: auxiliary facts\<close>



lemma validate_invalid:
  assumes "invalid_json h input"
  shows "\<not> isValid (validateJSON h input)
    \<and> map_option error_message (validation_error (validateJSON h input))
        = Some (if trim input = [] then lit ''Input is empty''
                else (case JSON_parse h input of Inl msg \<Rightarrow> msg | Inr v \<Rightarrow> []))"
  using assms
  by (auto simp: invalid_json_def validateJSON_def Let_def split: sum.splits)

section \<open>JSON formatter: the claims\<close>

text \<open>
  Claim C9 (error atomicity). For every input that is not valid JSON (blank, or rejected
  by \<open>JSON.parse\<close>), \<open>formatJSON\<close>, whatever its options, and \<open>minifyJSON\<close> return
  \<open>success = false\<close>, the input itself as output, and a non-empty error message:
  \<open>"Input is empty"\<close> for a blank input, otherwise the message of the host's SyntaxError
  (non-empty for a host whose SyntaxErrors have a message, as \<open>speaking_host\<close> says).
\<close>

theorem json_error_atomicity:
  assumes "invalid_json h input" and "speaking_host h"
  shows "success (formatJSON h sortObjectKeys input options) = False
    \<and> output_text (formatJSON h sortObjectKeys input options) = input
    \<and> (\<exists>msg. error (formatJSON h sortObjectKeys input options) = Some msg \<and> msg \<noteq> [])
    \<and> success (minifyJSON h input) = False
    \<and> output_text (minifyJSON h input) = input
    \<and> (\<exists>msg. error (minifyJSON h input) = Some msg \<and> msg \<noteq> [])"
proof -
  let ?msg = "if trim input = [] then lit ''Input is empty''
              else (case JSON_parse h input of Inl msg \<Rightarrow> msg | Inr v \<Rightarrow> [])"
  note v = validate_invalid [OF assms(1)]
  have f: "formatJSON h sortObjectKeys input options
      = \<lparr>success = False, output_text = input, error = Some ?msg\<rparr>"
    using v by (simp add: formatJSON_def Let_def)
  have m: "minifyJSON h input = \<lparr>success = False, output_text = input, error = Some ?msg\<rparr>"
    using v by (simp add: minifyJSON_def Let_def)
  have ne: "?msg \<noteq> []"
  proof (cases "trim input = []")
    case True
    then show ?thesis by (simp add: lit_def)
  next
    case False
    with assms(1) obtain msg where msg: "JSON_parse h input = Inl msg"
      by (auto simp: invalid_json_def split: sum.splits)
    with assms(2) have "msg \<noteq> []" by (auto simp: speaking_host_def)
    with False msg show ?thesis by simp
  qed
  show ?thesis
    unfolding f m using ne by simp
qed

theorem json_error_atomicity_witness:
  "invalid_json demo_host (lit ''{oops'') \<and> speaking_host demo_host
   \<and> success (formatJSON demo_host id (lit ''{oops'') DEFAULT_FORMAT_OPTIONS) = False
   \<and> output_text (formatJSON demo_host id (lit ''{oops'') DEFAULT_FORMAT_OPTIONS) = lit ''{oops''
   \<and> error (formatJSON demo_host id (lit ''{oops'') DEFAULT_FORMAT_OPTIONS)
        = Some (lit ''Unexpected token in JSON at position 0'')
   \<and> invalid_json demo_host (lit ''  '')
   \<and> success (minifyJSON demo_host (lit ''  '')) = False
   \<and> output_text (minifyJSON demo_host (lit ''  '')) = lit ''  ''
   \<and> error (minifyJSON demo_host (lit ''  '')) = Some (lit ''Input is empty'')"
proof -
  have h1: "invalid_json demo_host (lit ''{oops'')"
    by code_simp
  have h2: "speaking_host demo_host"
    by (simp add: speaking_host_def demo_host_def lit_def)
  have h3: "invalid_json demo_host (lit ''  '')"
    by code_simp
  note a = json_error_atomicity [OF h1 h2, of id DEFAULT_FORMAT_OPTIONS]
  note b = json_error_atomicity [OF h3 h2, of id DEFAULT_FORMAT_OPTIONS]
  from a have a1: "success (formatJSON demo_host id (lit ''{oops'') DEFAULT_FORMAT_OPTIONS) = False"
    and a2: "output_text (formatJSON demo_host id (lit ''{oops'') DEFAULT_FORMAT_OPTIONS) = lit ''{oops''"
    by blast+
  from b have b1: "success (minifyJSON demo_host (lit ''  '')) = False"
    and b2: "output_text (minifyJSON demo_host (lit ''  '')) = lit ''  ''"
    by blast+
  have a3: "error (formatJSON demo_host id (lit ''{oops'') DEFAULT_FORMAT_OPTIONS)
        = Some (lit ''Unexpected token in JSON at position 0'')"
    by code_simp
  have b3: "error (minifyJSON demo_host (lit ''  '')) = Some (lit ''Input is empty'')"
    by code_simp
  show ?thesis
    by (intro conjI h1 h2 h3 a1 a2 a3 b1 b2 b3)
qed




end
